theory Spec2Isabelle
  imports Complex_Main
begin

section \<open>Data model of photo.py\<close>

text \<open>
  Python's \<open>float\<close> is modelled by \<open>real\<close> and Python's unbounded \<open>int\<close> by \<open>int\<close>.
  Every theorem below is therefore a statement about the exact real-number value of the
  source's formulas, not about their IEEE rounding.
\<close>

datatype SkyCondition = CLEAR | ATMOSPHERIC | LOW_HORIZON | DEEP_SKY

record Position =
  azimuth :: real
  elevation :: real

definition is_visible :: "Position \<Rightarrow> bool" where
  "is_visible p = (elevation p > 0)"

record CameraConfig =
  iso :: int
  f_stop :: real
  shutter :: real
  focal_length :: int
  focus :: string

text \<open>The dataclass constructor with the default \<open>focus = "infinity"\<close>.\<close>

definition mk_CameraConfig :: "int \<Rightarrow> real \<Rightarrow> real \<Rightarrow> int \<Rightarrow> CameraConfig" where
  "mk_CameraConfig i f s fl =
     \<lparr>iso = i, f_stop = f, shutter = s, focal_length = fl, focus = ''infinity''\<rparr>"

record CelestialData =
  position :: Position
  phase :: real
  distance_km :: real
  angular_size_arcmin :: real
  magnitude :: real

definition condition :: "CelestialData \<Rightarrow> SkyCondition" where
  "condition cd =
     (if elevation (position cd) < 15 then LOW_HORIZON
      else if elevation (position cd) < 30 then ATMOSPHERIC
      else CLEAR)"

section \<open>ExposureCalculator\<close>

definition atmospheric_compensation :: "real \<Rightarrow> real" where
  "atmospheric_compensation el =
     (if el < 10 then 2.0
      else if el < 20 then 1.0
      else if el < 30 then 0.5
      else 0.0)"

definition phase_compensation :: "real \<Rightarrow> real" where
  "phase_compensation ph = -2.5 * ph + 1.5"

definition total_compensation :: "CelestialData \<Rightarrow> real" where
  "total_compensation cd =
     atmospheric_compensation (elevation (position cd)) + phase_compensation (phase cd)"

section \<open>CameraPresets\<close>

fun PRESETS :: "SkyCondition \<Rightarrow> CameraConfig" where
  "PRESETS CLEAR = mk_CameraConfig 200 8.0 (1/125) 300"
| "PRESETS ATMOSPHERIC = mk_CameraConfig 400 5.6 (1/200) 250"
| "PRESETS LOW_HORIZON = mk_CameraConfig 800 4.0 (1/160) 400"
| "PRESETS DEEP_SKY = mk_CameraConfig 1600 2.8 30 50"

definition get_config :: "SkyCondition \<Rightarrow> CameraConfig" where
  "get_config c = PRESETS c"

definition adjust_for_phase :: "CameraConfig \<Rightarrow> real \<Rightarrow> CameraConfig" where
  "adjust_for_phase config ph =
     (let brightness_factor = 0.3 + (0.7 * ph);
          new_iso = (if brightness_factor < 0.5 then min 3200 (iso config * 2) else iso config);
          new_f_stop = (if brightness_factor < 0.5 then max 2.8 (f_stop config - 1)
                        else f_stop config)
      in mk_CameraConfig new_iso new_f_stop (shutter config) (focal_length config))"

section \<open>TimelapseCalculator\<close>

text \<open>
  Failures of the Python run time are values. \<open>InvalidTimelapseParameters\<close> is the
  condition the specification names for a zero frame count; no statement of photo.py
  raises it.
\<close>

datatype py_error = ZeroDivisionError | OverflowError | ValueError | InvalidTimelapseParameters

text \<open>
  The floats of calculate_interval are rounded to one decimal for display, so their
  arithmetic is modelled as Python performs it, in IEEE 754 binary64. A finite double is
  kept as the real number it denotes (the two zeros are one value, as they are for Python's
  \<open>==\<close>); the infinities and NaN are values of their own.
\<close>

datatype pyfloat = Finite real | PosInf | NegInf | NaN

text \<open>\<open>int.bit_length\<close>: the number of binary digits of the magnitude.\<close>

function bit_length :: "int \<Rightarrow> int" where
  "bit_length n = (if n = 0 then 0 else 1 + bit_length (\<bar>n\<bar> div 2))"
  by pat_completeness auto
termination by (relation "measure (\<lambda>n. nat \<bar>n\<bar>)") auto

declare bit_length.simps [simp del]

text \<open>The binary exponent of a positive real x: the integer e with 2^e \<le> x < 2^(e+1).\<close>

definition ilog2 :: "real \<Rightarrow> int" where
  "ilog2 x = (if 1 \<le> x then bit_length \<lfloor>x\<rfloor> - 1 else - bit_length (\<lceil>1 / x\<rceil> - 1))"

definition round_half_even :: "real \<Rightarrow> int" where
  "round_half_even x =
     (let f = \<lfloor>x\<rfloor>; r = x - of_int f
      in if r < 1/2 then f else if 1/2 < r then f + 1 else if even f then f else f + 1)"

text \<open>
  The double nearest to a real, ties to the even significand: 53 significant bits, the
  exponent not below -1022 (subnormal numbers), and an infinity when the rounded magnitude
  reaches 2^1024.
\<close>

definition round_to_double :: "real \<Rightarrow> pyfloat" where
  "round_to_double x =
     (if x = 0 then Finite 0
      else
        let e = max (ilog2 \<bar>x\<bar>) (- 1022);
            quantum = power_int 2 (e - 52);
            r = of_int (round_half_even (x / quantum)) * quantum
        in if 2 ^ 1024 \<le> \<bar>r\<bar> then (if 0 < x then PosInf else NegInf) else Finite r)"

fun float_neg :: "pyfloat \<Rightarrow> pyfloat" where
  "float_neg (Finite x) = Finite (- x)"
| "float_neg PosInf = NegInf"
| "float_neg NegInf = PosInf"
| "float_neg NaN = NaN"

text \<open>\<open>float * float\<close> never raises: it overflows to an infinity.\<close>

fun float_mul :: "pyfloat \<Rightarrow> pyfloat \<Rightarrow> pyfloat" where
  "float_mul (Finite x) (Finite y) = round_to_double (x * y)"
| "float_mul NaN b = NaN"
| "float_mul a NaN = NaN"
| "float_mul (Finite x) b = (if x = 0 then NaN else if 0 < x then b else float_neg b)"
| "float_mul a (Finite y) = (if y = 0 then NaN else if 0 < y then a else float_neg a)"
| "float_mul a b = (if a = b then PosInf else NegInf)"

text \<open>\<open>float / float\<close> raises ZeroDivisionError on a zero divisor, whatever the dividend.\<close>

fun float_truediv :: "pyfloat \<Rightarrow> pyfloat \<Rightarrow> py_error + pyfloat" where
  "float_truediv a (Finite y) =
     (if y = 0 then Inl ZeroDivisionError
      else case a of
             Finite x \<Rightarrow> Inr (round_to_double (x / y))
           | NaN \<Rightarrow> Inr NaN
           | _ \<Rightarrow> Inr (if 0 < y then a else float_neg a))"
| "float_truediv a NaN = Inr NaN"
| "float_truediv (Finite x) b = Inr (Finite 0)"
| "float_truediv a b = Inr NaN"

text \<open>
  The conversion of an int operand to float, which float arithmetic does first: it raises
  OverflowError (int too large to convert to float) when the nearest double is not finite.
\<close>

definition int_to_float :: "int \<Rightarrow> py_error + pyfloat" where
  "int_to_float n =
     (case round_to_double (of_int n) of
        Finite x \<Rightarrow> Inr (Finite x)
      | _ \<Rightarrow> Inl OverflowError)"

text \<open>
  \<open>int / int\<close>: the correctly rounded quotient, ZeroDivisionError on a zero divisor,
  OverflowError when the quotient is too large for a float.
\<close>

definition int_truediv :: "int \<Rightarrow> int \<Rightarrow> py_error + pyfloat" where
  "int_truediv a b =
     (if b = 0 then Inl ZeroDivisionError
      else case round_to_double (of_int a / of_int b) of
             Finite x \<Rightarrow> Inr (Finite x)
           | _ \<Rightarrow> Inl OverflowError)"

text \<open>
  \<open>round(x, 1)\<close> of a float: the exact value of the double is rounded to one decimal, ties
  to the even digit, and the decimal is converted back to the nearest double; infinities
  and NaN are returned as they are.
\<close>

fun py_round1 :: "pyfloat \<Rightarrow> pyfloat" where
  "py_round1 (Finite x) = round_to_double (of_int (round_half_even (x * 10)) / 10)"
| "py_round1 a = a"

record TimelapseSettings =
  interval_seconds :: pyfloat
  total_frames :: int
  storage_gb :: pyfloat
  battery_hours :: pyfloat
  playback_fps :: int

text \<open>
  calculate_interval, statement by statement. The division \<open>total_seconds / target_frames\<close>
  first converts the int to a float (OverflowError) and then raises ZeroDivisionError on a
  zero divisor; the literals 3600 and 0.75 are exact doubles.
\<close>

definition calculate_interval :: "pyfloat \<Rightarrow> int \<Rightarrow> int \<Rightarrow> py_error + TimelapseSettings" where
  "calculate_interval duration_hours target_fps final_duration_seconds =
     (let total_seconds = float_mul duration_hours (Finite 3600);
          target_frames = target_fps * final_duration_seconds
      in case int_to_float target_frames of
           Inl e \<Rightarrow> Inl e
         | Inr divisor \<Rightarrow>
           (case float_truediv total_seconds divisor of
              Inl e \<Rightarrow> Inl e
            | Inr interval \<Rightarrow>
              (case int_truediv (target_frames * 25) 1024 of
                 Inl e \<Rightarrow> Inl e
               | Inr storage \<Rightarrow>
                   let battery = float_mul duration_hours (Finite (3/4))
                   in Inr \<lparr>interval_seconds = py_round1 interval,
                           total_frames = target_frames,
                           storage_gb = py_round1 storage,
                           battery_hours = py_round1 battery,
                           playback_fps = target_fps\<rparr>)))"

section \<open>AstronomyCalculator\<close>

definition radians :: "real \<Rightarrow> real" where
  "radians x = x * pi / 180"

definition degrees :: "real \<Rightarrow> real" where
  "degrees x = x * 180 / pi"

text \<open>Python's \<open>x % m\<close> on floats: the remainder of the floored quotient.\<close>

definition py_fmod :: "real \<Rightarrow> real \<Rightarrow> real" where
  "py_fmod x m = x - m * of_int \<lfloor>x / m\<rfloor>"

definition lunar_position :: "real \<Rightarrow> real \<Rightarrow> real \<Rightarrow> real \<times> real" where
  "lunar_position jd lat lon =
     (let d = jd - 2451545.0;
          L = radians (py_fmod (218.316 + 13.176396 * d) 360);
          M = radians (py_fmod (134.963 + 13.064993 * d) 360);
          M_sun = radians (py_fmod (357.528 + 0.985600 * d) 360);
          lon_ecl = L + radians (6.289 * sin M - 1.274 * sin (M - 2 * M_sun)
                                 + 0.658 * sin (2 * M_sun));
          lat_ecl = radians (5.128 * sin (radians (93.272 + 13.229350 * d)));
          az = py_fmod (degrees lon_ecl + 180) 360;
          el = max (-90) (min 90 (degrees lat_ecl + 30))
      in (az, el))"

definition lunar_phase :: "real \<Rightarrow> real" where
  "lunar_phase jd =
     (let d = jd - 2451545.0;
          L = radians (py_fmod (218.316 + 13.176396 * d) 360);
          S = radians (py_fmod (280.466 + 0.985647 * d) 360);
          phase_angle = L - S
      in (1 + cos phase_angle) / 2)"

text \<open>
  The two mean longitudes as the specification words them, for comparison with
  \<open>lunar_phase\<close>.
\<close>

definition mean_lunar_longitude :: "real \<Rightarrow> real" where
  "mean_lunar_longitude jd = radians (py_fmod (218.316 + 13.176396 * (jd - 2451545.0)) 360)"

definition mean_solar_longitude :: "real \<Rightarrow> real" where
  "mean_solar_longitude jd = radians (py_fmod (280.466 + 0.985647 * (jd - 2451545.0)) 360)"

section \<open>Timestamps and the Julian day\<close>

text \<open>The fields of a naive \<open>datetime.datetime\<close>.\<close>

record datetime =
  year :: int
  month :: int
  day :: int
  hour :: int
  minute :: int
  second :: int
  microsecond :: int

definition julian_day :: "datetime \<Rightarrow> real" where
  "julian_day ts =
     (let a = (14 - month ts) div 12;
          y = year ts + 4800 - a;
          m = month ts + 12 * a - 3;
          jdn = day ts + (153 * m + 2) div 5 + 365 * y + y div 4 - y div 100 + y div 400 - 32045;
          fraction = of_int (hour ts - 12) / 24 + of_int (minute ts) / 1440
                     + of_int (second ts) / 86400
      in of_int jdn + fraction)"

text \<open>
  The Julian Day Number as the specification words it: the standard Gregorian algorithm, in
  which January and February count as months 13 and 14 of the preceding year.
\<close>

definition gregorian_jdn :: "int \<Rightarrow> int \<Rightarrow> int \<Rightarrow> int" where
  "gregorian_jdn y m d =
     (let y' = (if m \<le> 2 then y - 1 else y) + 4800;
          m' = (if m \<le> 2 then m + 12 else m) - 3
      in d + (153 * m' + 2) div 5 + 365 * y' + y' div 4 - y' div 100 + y' div 400 - 32045)"

section \<open>The datetime library: ordinals, addition of minutes, comparison\<close>

text \<open>
  photo.py takes its timestamps from Python's \<open>datetime\<close> module: \<open>datetime.now()\<close>,
  \<open>start_time + timedelta(minutes=i)\<close>. The definitions of this section follow the
  module's reference implementation (the proleptic Gregorian ordinal of a date, with
  day 1 = 0001-01-01, and its inverse), so that adding minutes to a timestamp carries
  into hours, days, months and years, and leaves the supported range 0001..9999 with
  OverflowError.
\<close>

definition is_leap :: "int \<Rightarrow> bool" where
  "is_leap y = (y mod 4 = 0 \<and> (y mod 100 \<noteq> 0 \<or> y mod 400 = 0))"

definition days_before_year :: "int \<Rightarrow> int" where
  "days_before_year y = (let y1 = y - 1 in y1 * 365 + y1 div 4 - y1 div 100 + y1 div 400)"

definition DAYS_IN_MONTH :: "int \<Rightarrow> int" where
  "DAYS_IN_MONTH m =
     (if m = 2 then 28 else if m = 4 \<or> m = 6 \<or> m = 9 \<or> m = 11 then 30 else 31)"

definition DAYS_BEFORE_MONTH :: "int \<Rightarrow> int" where
  "DAYS_BEFORE_MONTH m =
     (if m = 1 then 0 else if m = 2 then 31 else if m = 3 then 59 else if m = 4 then 90
      else if m = 5 then 120 else if m = 6 then 151 else if m = 7 then 181
      else if m = 8 then 212 else if m = 9 then 243 else if m = 10 then 273
      else if m = 11 then 304 else 334)"

definition days_in_month :: "int \<Rightarrow> int \<Rightarrow> int" where
  "days_in_month y m = (if m = 2 \<and> is_leap y then 29 else DAYS_IN_MONTH m)"

definition days_before_month :: "int \<Rightarrow> int \<Rightarrow> int" where
  "days_before_month y m = DAYS_BEFORE_MONTH m + (if m > 2 \<and> is_leap y then 1 else 0)"

definition ymd2ord :: "int \<Rightarrow> int \<Rightarrow> int \<Rightarrow> int" where
  "ymd2ord y m d = days_before_year y + days_before_month y m + d"

text \<open>Month and day of the zero-based day \<open>n\<close> of a year.\<close>

definition month_day :: "bool \<Rightarrow> int \<Rightarrow> int \<times> int" where
  "month_day leapyear n =
     (let mo = (n + 50) div 32;
          preceding = DAYS_BEFORE_MONTH mo + (if mo > 2 \<and> leapyear then 1 else 0)
      in if preceding > n
         then (mo - 1,
               n - (preceding - (DAYS_IN_MONTH (mo - 1)
                                 + (if mo - 1 = 2 \<and> leapyear then 1 else 0))) + 1)
         else (mo, n - preceding + 1))"

definition ord2ymd :: "int \<Rightarrow> int \<times> int \<times> int" where
  "ord2ymd ordinal =
     (let n = ordinal - 1;
          n400 = n div 146097; r400 = n mod 146097;
          n100 = r400 div 36524; r100 = r400 mod 36524;
          n4 = r100 div 1461; r4 = r100 mod 1461;
          n1 = r4 div 365; r1 = r4 mod 365;
          yr = n400 * 400 + 1 + n100 * 100 + n4 * 4 + n1
      in if n1 = 4 \<or> n100 = 4 then (yr - 1, 12, 31)
         else
           let leapyear = (n1 = 3 \<and> (n4 \<noteq> 24 \<or> n100 = 3));
               (mo, d) = month_day leapyear r1
           in (yr, mo, d))"

definition MAXORDINAL :: int where
  "MAXORDINAL = 3652059"

definition valid_datetime :: "datetime \<Rightarrow> bool" where
  "valid_datetime ts =
     (1 \<le> year ts \<and> year ts \<le> 9999 \<and> 1 \<le> month ts \<and> month ts \<le> 12
      \<and> 1 \<le> day ts \<and> day ts \<le> days_in_month (year ts) (month ts)
      \<and> 0 \<le> hour ts \<and> hour ts < 24 \<and> 0 \<le> minute ts \<and> minute ts < 60
      \<and> 0 \<le> second ts \<and> second ts < 60
      \<and> 0 \<le> microsecond ts \<and> microsecond ts < 1000000)"

definition toordinal :: "datetime \<Rightarrow> int" where
  "toordinal ts = ymd2ord (year ts) (month ts) (day ts)"

text \<open>
  \<open>ts + timedelta(minutes=k)\<close>. The timedelta itself must have at most 999999999 days;
  the sum is formed as days and seconds of the day and must land on an ordinal in
  1..MAXORDINAL.
\<close>

definition plus_minutes :: "datetime \<Rightarrow> int \<Rightarrow> py_error + datetime" where
  "plus_minutes ts k =
     (if \<bar>k div 1440\<bar> > 999999999 then Inl OverflowError
      else
        let secs = hour ts * 3600 + minute ts * 60 + second ts + k * 60;
            days = toordinal ts + secs div 86400;
            s = secs mod 86400
        in if 0 < days \<and> days \<le> MAXORDINAL
           then (let (y, m, d) = ord2ymd days
                 in Inr \<lparr>year = y, month = m, day = d,
                         hour = s div 3600, minute = (s mod 3600) div 60, second = s mod 60,
                         microsecond = microsecond ts\<rparr>)
           else Inl OverflowError)"

text \<open>Comparison of naive datetimes: lexicographic on the seven fields.\<close>

definition dt_less :: "datetime \<Rightarrow> datetime \<Rightarrow> bool" where
  "dt_less a b =
     (year a < year b \<or> (year a = year b \<and>
      (month a < month b \<or> (month a = month b \<and>
      (day a < day b \<or> (day a = day b \<and>
      (hour a < hour b \<or> (hour a = hour b \<and>
      (minute a < minute b \<or> (minute a = minute b \<and>
      (second a < second b \<or> (second a = second b \<and>
       microsecond a < microsecond b))))))))))))"

text \<open>The position of a timestamp on the time line, in microseconds.\<close>

definition instant :: "datetime \<Rightarrow> int" where
  "instant ts =
     ((toordinal ts * 86400 + hour ts * 3600 + minute ts * 60 + second ts) * 1000000
      + microsecond ts)"

section \<open>AstroSession\<close>

record AstroSession =
  lat :: real
  lon :: real

record ShootingPlan =
  timestamp :: datetime
  celestial_data :: CelestialData
  camera_config :: CameraConfig
  exposure_comp :: real

definition get_lunar_data :: "AstroSession \<Rightarrow> datetime \<Rightarrow> CelestialData" where
  "get_lunar_data s ts =
     (let jd = julian_day ts;
          (az, el) = lunar_position jd (lat s) (lon s);
          ph = lunar_phase jd;
          distance = 384400;
          angular_size = 31.1;
          mag = -12.7 * ph - 2.5
      in \<lparr>position = \<lparr>azimuth = az, elevation = el\<rparr>, phase = ph, distance_km = distance,
          angular_size_arcmin = angular_size, magnitude = mag\<rparr>)"

definition create_shooting_plan :: "AstroSession \<Rightarrow> datetime \<Rightarrow> ShootingPlan" where
  "create_shooting_plan s ts =
     (let lunar_data = get_lunar_data s ts;
          base_config = get_config (condition lunar_data);
          adjusted_config = adjust_for_phase base_config (phase lunar_data);
          ec = total_compensation lunar_data
      in \<lparr>timestamp = ts, celestial_data = lunar_data, camera_config = adjusted_config,
          exposure_comp = ec\<rparr>)"

text \<open>
  \<open>range(start, stop, step)\<close> for a non-zero step, as the list of the values the loop
  variable takes; a zero step is rejected by the caller below, as \<open>range\<close> raises
  ValueError.
\<close>

function py_range :: "int \<Rightarrow> int \<Rightarrow> int \<Rightarrow> int list" where
  "py_range i stop step =
     (if 0 < step \<and> i < stop then i # py_range (i + step) stop step
      else if step < 0 \<and> stop < i then i # py_range (i + step) stop step
      else [])"
  by pat_completeness auto
termination
  by (relation "measure (\<lambda>(i, stop, step). nat (if 0 < step then stop - i else i - stop))") auto

text \<open>
  The loop body of generate_sequence: one plan per offset, appended in order; an overflow
  of \<open>start_time + timedelta(minutes=i)\<close> ends the call.
\<close>

fun plan_loop ::
  "AstroSession \<Rightarrow> datetime \<Rightarrow> int list \<Rightarrow> ShootingPlan list \<Rightarrow> py_error + ShootingPlan list" where
  "plan_loop s start_time [] sequence = Inr sequence"
| "plan_loop s start_time (i # rest) sequence =
     (case plus_minutes start_time i of
        Inl e \<Rightarrow> Inl e
      | Inr ts \<Rightarrow> plan_loop s start_time rest (sequence @ [create_shooting_plan s ts]))"

text \<open>
  generate_sequence, with the reading of the clock (\<open>datetime.now()\<close>) as the argument
  \<open>start_time\<close>.
\<close>

definition generate_sequence ::
  "AstroSession \<Rightarrow> datetime \<Rightarrow> int \<Rightarrow> int \<Rightarrow> py_error + ShootingPlan list" where
  "generate_sequence s start_time duration_minutes interval_minutes =
     (if interval_minutes = 0 then Inl ValueError
      else plan_loop s start_time (py_range 0 duration_minutes interval_minutes) [])"

text \<open>A CelestialData whose only relevant content is its elevation and phase.\<close>

definition celestial_at :: "real \<Rightarrow> real \<Rightarrow> CelestialData" where
  "celestial_at el ph =
     \<lparr>position = \<lparr>azimuth = 0, elevation = el\<rparr>, phase = ph, distance_km = 384400,
      angular_size_arcmin = 31.1, magnitude = -12.7 * ph - 2.5\<rparr>"

section \<open>Condition classifier\<close>

text \<open>
  Claim C3. The classifier returns LOW_HORIZON below 15 degrees, ATMOSPHERIC from 15 up to
  (not including) 30 degrees and CLEAR from 30 degrees on; it depends on the elevation only;
  the four boundary samples 14.9, 15.0, 29.9, 30.0 classify as LowHorizon, Atmospheric,
  Atmospheric, Clear; and DEEP_SKY is never returned.
\<close>

theorem condition_thresholds:
  "condition cd =
     (if elevation (position cd) < 15 then LOW_HORIZON
      else if elevation (position cd) < 30 then ATMOSPHERIC else CLEAR)
   \<and> condition (celestial_at 14.9 ph) = LOW_HORIZON
   \<and> condition (celestial_at 15.0 ph) = ATMOSPHERIC
   \<and> condition (celestial_at 29.9 ph) = ATMOSPHERIC
   \<and> condition (celestial_at 30.0 ph) = CLEAR
   \<and> condition cd \<noteq> DEEP_SKY"
  by (simp add: condition_def celestial_at_def)

section \<open>Exposure compensation\<close>

text \<open>
  Claim C4. atmospheric_compensation is the step function 2.0 / 1.0 / 0.5 / 0.0 with
  thresholds 10, 20 and 30 degrees; phase_compensation is -2.5 * phase + 1.5;
  total_compensation is the plain sum of the two (nothing clamps it); at elevation 5 and
  phase 0 the total is exactly 3.5.
\<close>

theorem exposure_compensation_values:
  "atmospheric_compensation el =
     (if el < 10 then 2 else if el < 20 then 1 else if el < 30 then 1/2 else 0)
   \<and> phase_compensation ph = -2.5 * ph + 1.5
   \<and> total_compensation cd =
       atmospheric_compensation (elevation (position cd)) + phase_compensation (phase cd)
   \<and> total_compensation (celestial_at el ph) =
       (if el < 10 then 2 else if el < 20 then 1 else if el < 30 then 1/2 else 0)
       + (-2.5 * ph + 1.5)
   \<and> total_compensation (celestial_at 5 0) = 3.5"
  by (simp add: atmospheric_compensation_def phase_compensation_def total_compensation_def
      celestial_at_def)

section \<open>Phase adjustment of a camera configuration\<close>

text \<open>
  Claim C2, at the input where the code departs from it. For a bright phase the
  configuration should come back unchanged, but adjust_for_phase passes only iso, f_stop,
  shutter and focal_length to the constructor, so the focus falls back to its default
  "infinity": a configuration with focus "manual" is not returned equal to itself.
\<close>

theorem adjust_for_phase_not_identity:
  "adjust_for_phase
     \<lparr>iso = 200, f_stop = 8, shutter = 1/125, focal_length = 300, focus = ''manual''\<rparr> 1
   \<noteq> \<lparr>iso = 200, f_stop = 8, shutter = 1/125, focal_length = 300, focus = ''manual''\<rparr>"
  by (simp add: adjust_for_phase_def mk_CameraConfig_def)

text \<open>
  What adjust_for_phase does guarantee. With brightness = 0.3 + 0.7 * phase: if
  brightness < 0.5 the result has iso = min(3200, 2 * iso), f_stop = max(2.8, f_stop - 1)
  and the shutter and focal length of the input; otherwise iso, f_stop, shutter and focal
  length are those of the input, and the result equals the input whenever the input's focus
  is "infinity" (as in every preset). For every preset and every phase the adjusted ISO is
  at most 3200 and the adjusted f_stop at least 2.8.
\<close>

theorem adjust_for_phase_spec:
  "(0.3 + 0.7 * ph < 0.5 \<longrightarrow>
      iso (adjust_for_phase config ph) = min 3200 (iso config * 2)
      \<and> f_stop (adjust_for_phase config ph) = max 2.8 (f_stop config - 1)
      \<and> shutter (adjust_for_phase config ph) = shutter config
      \<and> focal_length (adjust_for_phase config ph) = focal_length config)
   \<and> (\<not> 0.3 + 0.7 * ph < 0.5 \<longrightarrow>
      iso (adjust_for_phase config ph) = iso config
      \<and> f_stop (adjust_for_phase config ph) = f_stop config
      \<and> shutter (adjust_for_phase config ph) = shutter config
      \<and> focal_length (adjust_for_phase config ph) = focal_length config
      \<and> (focus config = ''infinity'' \<longrightarrow> adjust_for_phase config ph = config))
   \<and> adjust_for_phase (get_config c) ph =
       (if 0.3 + 0.7 * ph < 0.5
        then (get_config c)\<lparr>iso := min 3200 (iso (get_config c) * 2),
                             f_stop := max 2.8 (f_stop (get_config c) - 1)\<rparr>
        else get_config c)
   \<and> iso (adjust_for_phase (get_config c) ph) \<le> 3200
   \<and> 2.8 \<le> f_stop (adjust_for_phase (get_config c) ph)"
  by (cases c) (simp_all add: adjust_for_phase_def mk_CameraConfig_def get_config_def Let_def)

theorem adjust_for_phase_spec_witness:
  "(0.3 + 0.7 * (0::real) < 0.5)
   \<and> adjust_for_phase (get_config CLEAR) 0 = mk_CameraConfig 400 7 (1/125) 300
   \<and> \<not> (0.3 + 0.7 * (1::real) < 0.5)
   \<and> focus (get_config DEEP_SKY) = ''infinity''
   \<and> adjust_for_phase (get_config DEEP_SKY) 1 = get_config DEEP_SKY
   \<and> iso (adjust_for_phase (get_config DEEP_SKY) 0) = 3200
   \<and> f_stop (adjust_for_phase (get_config DEEP_SKY) 0) = 2.8"
  using adjust_for_phase_spec [of 0 "get_config CLEAR" CLEAR]
    adjust_for_phase_spec [of 1 "get_config DEEP_SKY" DEEP_SKY]
    adjust_for_phase_spec [of 0 "get_config DEEP_SKY" DEEP_SKY]
  by (simp add: get_config_def mk_CameraConfig_def)

section \<open>Timelapse parameters with a zero frame count\<close>

text \<open>
  The model of the float arithmetic reproduces Python at the demo call
  calculate_interval(2.0), which gives interval 10.0, storage 17.6 and battery 1.5, and at
  calculate_interval(2.2), where 2.2 * 0.75 is the double 1.6500000000000001 and rounds to
  1.7 = 7656119366529843 / 2^52.
\<close>

lemmas float_eval = round_to_double_def ilog2_def round_half_even_def bit_length.simps
  power_int_def Let_def int_to_float_def int_truediv_def power_divide

lemma calculate_interval_default:
  "calculate_interval (Finite 2) 24 30 =
     Inr \<lparr>interval_seconds = Finite 10, total_frames = 720,
          storage_gb = Finite (2476979795053773 / 140737488355328),
          battery_hours = Finite (3 / 2), playback_fps = 24\<rparr>"
  by (simp add: calculate_interval_def float_eval)

lemma calculate_interval_rounding:
  "round_to_double (11 / 5) = Finite (2476979795053773 / 1125899906842624)
   \<and> round_to_double (17 / 10) = Finite (7656119366529843 / 4503599627370496)
   \<and> calculate_interval (Finite (2476979795053773 / 1125899906842624)) 24 30 =
     Inr \<lparr>interval_seconds = Finite 11, total_frames = 720,
          storage_gb = Finite (2476979795053773 / 140737488355328),
          battery_hours = Finite (7656119366529843 / 4503599627370496), playback_fps = 24\<rparr>"
  by (simp add: calculate_interval_def float_eval)

text \<open>
  Claim C5, as stated, fails: with target_fps = 0 the call ends in the division's own
  ZeroDivisionError, not in a dedicated "invalid timelapse parameters" condition.
\<close>

theorem calculate_interval_zero_fps:
  "calculate_interval (Finite 2) 0 30 = Inl ZeroDivisionError
   \<and> calculate_interval (Finite 2) 0 30 \<noteq> Inl InvalidTimelapseParameters"
  by (simp add: calculate_interval_def int_to_float_def round_to_double_def)

text \<open>
  Claim C5, amended. When target_frames = target_fps * final_duration_seconds is zero,
  calculate_interval fails, for every duration, with the ZeroDivisionError of the division
  and not with a dedicated "invalid timelapse parameters" condition; it returns no settings
  record, so no infinite or NaN interval is produced.
\<close>

theorem calculate_interval_zero_frames:
  assumes "target_fps * final_duration_seconds = 0"
  shows "calculate_interval duration_hours target_fps final_duration_seconds
           = Inl ZeroDivisionError
     \<and> calculate_interval duration_hours target_fps final_duration_seconds
           \<noteq> Inl InvalidTimelapseParameters
     \<and> (\<nexists>settings. calculate_interval duration_hours target_fps final_duration_seconds
           = Inr settings)"
  using assms by (simp add: calculate_interval_def int_to_float_def round_to_double_def)

theorem calculate_interval_zero_frames_witness:
  "(24::int) * 0 = 0
   \<and> calculate_interval (Finite 2) 24 0 = Inl ZeroDivisionError
   \<and> calculate_interval (Finite 2) 24 0 \<noteq> Inl InvalidTimelapseParameters
   \<and> (\<nexists>settings. calculate_interval (Finite 2) 24 0 = Inr settings)"
  using calculate_interval_zero_frames [of 24 0 "Finite 2"] by simp

section \<open>Ephemeris: ranges of position and phase\<close>

lemma py_fmod_range: "0 < m \<Longrightarrow> 0 \<le> py_fmod x m \<and> py_fmod x m < m"
proof -
  assume m: "0 < m"
  have a: "of_int \<lfloor>x / m\<rfloor> \<le> x / m" by linarith
  have b: "x / m < of_int \<lfloor>x / m\<rfloor> + 1" by linarith
  have c: "m * (x / m) = x" using m by simp
  from a m have "m * of_int \<lfloor>x / m\<rfloor> \<le> m * (x / m)"
    by (intro mult_left_mono) simp_all
  moreover from b m have "m * (x / m) < m * (of_int \<lfloor>x / m\<rfloor> + 1)"
    by (intro mult_strict_left_mono) simp_all
  ultimately show ?thesis unfolding c by (simp add: py_fmod_def algebra_simps)
qed

lemma degrees_radians: "degrees (radians x) = x"
  by (simp add: degrees_def radians_def)

lemma unit_half: "- 1 \<le> c \<Longrightarrow> c \<le> 1 \<Longrightarrow> 0 \<le> (1 + c) / 2 \<and> (1 + c) / 2 \<le> 1" for c :: real
  by simp

lemma clamp_lat: "- 1 \<le> s \<Longrightarrow> s \<le> 1 \<Longrightarrow>
   max (-90) (min 90 (5.128 * s + 30)) = 30 + 5.128 * s
   \<and> 30 - 5.128 \<le> 30 + 5.128 * s \<and> 30 + 5.128 * s \<le> 30 + 5.128" for s :: real
  by (simp add: max_def min_def)

lemma lunar_elevation_eq:
  "snd (lunar_position jd la lo) =
     30 + 5.128 * sin (radians (93.272 + 13.229350 * (jd - 2451545.0)))"
proof -
  have "snd (lunar_position jd la lo) =
      max (-90) (min 90 (5.128 * sin (radians (93.272 + 13.229350 * (jd - 2451545.0))) + 30))"
    by (simp add: lunar_position_def Let_def degrees_radians)
  also have "\<dots> = 30 + 5.128 * sin (radians (93.272 + 13.229350 * (jd - 2451545.0)))"
    by (rule clamp_lat [THEN conjunct1]) (rule sin_ge_minus_one, rule sin_le_one)
  finally show ?thesis .
qed

lemma lunar_elevation_band:
  "30 - 5.128 \<le> snd (lunar_position jd la lo) \<and> snd (lunar_position jd la lo) \<le> 30 + 5.128"
  unfolding lunar_elevation_eq
  by (rule clamp_lat [THEN conjunct2]) (rule sin_ge_minus_one, rule sin_le_one)

lemma cos_radians_fmod:
  "cos (radians (py_fmod x 360) - radians (py_fmod y 360)) = cos (radians (x - y))"
proof -
  define k where "k = \<lfloor>y / 360\<rfloor> - \<lfloor>x / 360\<rfloor>"
  have "radians (py_fmod x 360) - radians (py_fmod y 360) = radians (x - y) + 2 * pi * of_int k"
    by (simp add: radians_def py_fmod_def k_def field_simps)
  then show ?thesis
    by (simp only: cos_add sin_int_2pin cos_int_2pin)
qed

lemma lunar_phase_eq:
  "lunar_phase jd = (1 + cos (mean_lunar_longitude jd - mean_solar_longitude jd)) / 2"
  by (simp add: lunar_phase_def Let_def mean_lunar_longitude_def mean_solar_longitude_def)

lemma elevation_get_lunar_data:
  "elevation (position (get_lunar_data s ts)) = snd (lunar_position (julian_day ts) (lat s) (lon s))"
  by (simp add: get_lunar_data_def Let_def split: prod.split)

text \<open>
  Claim C6. For every Julian day and every observer latitude and longitude, the azimuth
  returned by lunar_position lies in [0, 360) and the elevation in [-90, 90].
\<close>

theorem lunar_position_ranges:
  "0 \<le> fst (lunar_position jd la lo) \<and> fst (lunar_position jd la lo) < 360
   \<and> -90 \<le> snd (lunar_position jd la lo) \<and> snd (lunar_position jd la lo) \<le> 90"
  using py_fmod_range [of 360] by (simp add: lunar_position_def Let_def)

text \<open>
  Claim C7. lunar_phase(jd) is (1 + cos(L - S)) / 2, where L and S are the mean lunar and
  solar longitudes radians((218.316 + 13.176396 d) mod 360) and
  radians((280.466 + 0.985647 d) mod 360) with d = jd - 2451545.0, and it lies in [0, 1].
  The two reductions mod 360 cancel under the cosine.
\<close>

theorem lunar_phase_formula:
  "lunar_phase jd = (1 + cos (mean_lunar_longitude jd - mean_solar_longitude jd)) / 2
   \<and> mean_lunar_longitude jd = radians (py_fmod (218.316 + 13.176396 * (jd - 2451545.0)) 360)
   \<and> mean_solar_longitude jd = radians (py_fmod (280.466 + 0.985647 * (jd - 2451545.0)) 360)
   \<and> lunar_phase jd =
       (1 + cos (radians ((218.316 + 13.176396 * (jd - 2451545.0))
                          - (280.466 + 0.985647 * (jd - 2451545.0))))) / 2
   \<and> 0 \<le> lunar_phase jd \<and> lunar_phase jd \<le> 1"
proof -
  have bounds: "0 \<le> lunar_phase jd \<and> lunar_phase jd \<le> 1"
    unfolding lunar_phase_eq
    by (rule unit_half) (rule cos_ge_minus_one, rule cos_le_one)
  have plain: "lunar_phase jd =
       (1 + cos (radians ((218.316 + 13.176396 * (jd - 2451545.0))
                          - (280.466 + 0.985647 * (jd - 2451545.0))))) / 2"
    unfolding lunar_phase_eq mean_lunar_longitude_def mean_solar_longitude_def
    by (simp only: cos_radians_fmod)
  show ?thesis
    using bounds plain lunar_phase_eq [of jd]
    by (simp only: mean_lunar_longitude_def mean_solar_longitude_def simp_thms)
qed

section \<open>The lunar data of a timestamp\<close>

text \<open>
  Claim C9. The elevation returned by lunar_position always lies in
  [30 - 5.128, 30 + 5.128]; hence the CelestialData of get_lunar_data is visible for every
  timestamp and its condition is ATMOSPHERIC or CLEAR, never LOW_HORIZON or DEEP_SKY.
\<close>

theorem lunar_elevation_always_high:
  "30 - 5.128 \<le> snd (lunar_position jd la lo)
   \<and> snd (lunar_position jd la lo) \<le> 30 + 5.128
   \<and> is_visible (position (get_lunar_data s ts))
   \<and> (condition (get_lunar_data s ts) = ATMOSPHERIC \<or> condition (get_lunar_data s ts) = CLEAR)
   \<and> condition (get_lunar_data s ts) \<noteq> LOW_HORIZON
   \<and> condition (get_lunar_data s ts) \<noteq> DEEP_SKY"
  using lunar_elevation_band [of jd la lo] lunar_elevation_band [of "julian_day ts" "lat s" "lon s"]
  by (simp add: is_visible_def condition_def elevation_get_lunar_data)

text \<open>
  Claim C10. The CelestialData of get_lunar_data has distance_km = 384400,
  angular_size_arcmin = 31.1 and magnitude = -12.7 * phase - 2.5 for its own phase field,
  which is the lunar phase of the timestamp's Julian day.
\<close>

theorem get_lunar_data_constants:
  "distance_km (get_lunar_data s ts) = 384400
   \<and> angular_size_arcmin (get_lunar_data s ts) = 31.1
   \<and> magnitude (get_lunar_data s ts) = -12.7 * phase (get_lunar_data s ts) - 2.5
   \<and> phase (get_lunar_data s ts) = lunar_phase (julian_day ts)"
  by (simp add: get_lunar_data_def Let_def split: prod.split)

section \<open>The Julian day of a calendar date\<close>

lemma div_step:
  "0 < k \<Longrightarrow> y div k = (y - 1) div k + (if y mod k = 0 then 1 else 0)" for y k :: int
proof (cases "y mod k = 0")
  case True
  assume k: "0 < k"
  have eq: "y - 1 = k * (y div k - 1) + (k - 1)"
    using True mult_div_mod_eq [of k y] by (simp add: algebra_simps)
  have "(y - 1) div k = y div k - 1"
    by (rule int_div_pos_eq [OF eq]) (use k in simp_all)
  with True show ?thesis by simp
next
  case False
  assume k: "0 < k"
  have r: "0 \<le> y mod k" "y mod k < k" using k by simp_all
  have eq: "y - 1 = k * (y div k) + (y mod k - 1)"
    using mult_div_mod_eq [of k y] by (simp add: algebra_simps)
  have "(y - 1) div k = y div k"
    by (rule int_div_pos_eq [OF eq]) (use k r False in simp_all)
  with False show ?thesis by simp
qed

lemma mod_chain: "y mod 400 = 0 \<Longrightarrow> y mod 100 = 0" "y mod 100 = 0 \<Longrightarrow> y mod 4 = 0" for y :: int
proof -
  show "y mod 400 = 0 \<Longrightarrow> y mod 100 = 0"
    using mod_mod_cancel [of 100 400 y] by simp
  show "y mod 100 = 0 \<Longrightarrow> y mod 4 = 0"
    using mod_mod_cancel [of 4 100 y] by simp
qed

lemma shift4800:
  "(y + 4800) div 4 = y div 4 + 1200" "(y + 4800) div 100 = y div 100 + 48"
  "(y + 4800) div 400 = y div 400 + 12" for y :: int
proof -
  show "(y + 4800) div 4 = y div 4 + 1200" using div_mult_self1 [of 4 y 1200] by simp
  show "(y + 4800) div 100 = y div 100 + 48" using div_mult_self1 [of 100 y 48] by simp
  show "(y + 4800) div 400 = y div 400 + 12" using div_mult_self1 [of 400 y 12] by simp
qed

lemma leap_step:
  "y div 4 - y div 100 + y div 400 =
   (y - 1) div 4 - (y - 1) div 100 + (y - 1) div 400 + (if is_leap y then 1 else 0)" for y :: int
proof -
  have a: "y div 4 = (y - 1) div 4 + (if y mod 4 = 0 then 1 else 0)" by (rule div_step) simp
  have b: "y div 100 = (y - 1) div 100 + (if y mod 100 = 0 then 1 else 0)" by (rule div_step) simp
  have c: "y div 400 = (y - 1) div 400 + (if y mod 400 = 0 then 1 else 0)" by (rule div_step) simp
  consider (n4) "y mod 4 \<noteq> 0" | (n100) "y mod 4 = 0" "y mod 100 \<noteq> 0"
    | (n400) "y mod 100 = 0" "y mod 400 \<noteq> 0" | (l) "y mod 400 = 0"
    by argo
  then show ?thesis
  proof cases
    case n4
    then have m: "y mod 100 \<noteq> 0 \<and> y mod 400 \<noteq> 0" using mod_chain [of y] by argo
    have "\<not> is_leap y" using n4 by (simp only: is_leap_def simp_thms)
    then have "(if is_leap y then 1 else 0) = (0::int)" by (simp only: if_False)
    moreover have "y div 4 = (y - 1) div 4" using a n4 by (simp only: if_False add_0_right)
    moreover have "y div 100 = (y - 1) div 100" using b m by (simp only: if_False add_0_right)
    moreover have "y div 400 = (y - 1) div 400" using c m by (simp only: if_False add_0_right)
    ultimately show ?thesis by linarith
  next
    case n100
    then have m: "y mod 400 \<noteq> 0" using mod_chain [of y] by argo
    have "is_leap y" using n100 by (simp only: is_leap_def simp_thms not_False_eq_True)
    then have "(if is_leap y then 1 else 0) = (1::int)" by (simp only: if_True)
    moreover have "y div 4 = (y - 1) div 4 + 1" using a n100 by (simp only: if_True simp_thms)
    moreover have "y div 100 = (y - 1) div 100" using b n100 by (simp only: if_False add_0_right)
    moreover have "y div 400 = (y - 1) div 400" using c m by (simp only: if_False add_0_right)
    ultimately show ?thesis by linarith
  next
    case n400
    then have m: "y mod 4 = 0" using mod_chain [of y] by argo
    have "\<not> is_leap y" using n400 m by (simp only: is_leap_def simp_thms)
    then have "(if is_leap y then 1 else 0) = (0::int)" by (simp only: if_False)
    moreover have "y div 4 = (y - 1) div 4 + 1" using a m by (simp only: if_True simp_thms)
    moreover have "y div 100 = (y - 1) div 100 + 1" using b n400 by (simp only: if_True simp_thms)
    moreover have "y div 400 = (y - 1) div 400" using c n400 by (simp only: if_False add_0_right)
    ultimately show ?thesis by linarith
  next
    case l
    then have m: "y mod 100 = 0 \<and> y mod 4 = 0" using mod_chain [of y] by argo
    have "is_leap y" using l m by (simp only: is_leap_def simp_thms)
    then have "(if is_leap y then 1 else 0) = (1::int)" by (simp only: if_True)
    moreover have "y div 4 = (y - 1) div 4 + 1" using a m by (simp only: if_True simp_thms)
    moreover have "y div 100 = (y - 1) div 100 + 1" using b m by (simp only: if_True simp_thms)
    moreover have "y div 400 = (y - 1) div 400 + 1" using c l by (simp only: if_True simp_thms)
    ultimately show ?thesis by linarith
  qed
qed

lemma days_before_year_Suc:
  "days_before_year (y + 1) = days_before_year y + 365 + (if is_leap y then 1 else 0)"
proof -
  have "days_before_year (y + 1) = y * 365 + (y div 4 - y div 100 + y div 400)"
    by (simp add: days_before_year_def Let_def)
  also have "\<dots> = days_before_year y + 365 + (if is_leap y then 1 else 0)"
    unfolding leap_step [of y] days_before_year_def Let_def by (simp add: algebra_simps)
  finally show ?thesis .
qed

lemma year_part_late:
  "365 * (y + 4800) + (y + 4800) div 4 - (y + 4800) div 100 + (y + 4800) div 400
   = days_before_year (y + 1) + 1753164" for y :: int
proof -
  have "365 * (y + 4800) + (y + 4800) div 4 - (y + 4800) div 100 + (y + 4800) div 400
      = y * 365 + (y div 4 - y div 100 + y div 400) + 1753164"
    unfolding shift4800 [of y] by simp
  also have "\<dots> = days_before_year (y + 1) + 1753164"
    by (simp add: days_before_year_def Let_def)
  finally show ?thesis .
qed

lemma month_cases: "1 \<le> m \<Longrightarrow> m \<le> 12 \<Longrightarrow>
  m = 1 \<or> m = 2 \<or> m = 3 \<or> m = 4 \<or> m = 5 \<or> m = 6 \<or> m = 7 \<or> m = 8 \<or> m = 9
  \<or> m = 10 \<or> m = 11 \<or> m = (12::int)"
  by arith

lemma month_table:
  assumes "1 \<le> m" "m \<le> 12"
  shows "(14 - m) div 12 = (if m \<le> 2 then 1 else 0)
    \<and> (153 * (m + 12 * ((14 - m) div 12) - 3) + 2) div 5
        = DAYS_BEFORE_MONTH m + (if m \<le> 2 then 306 else - 59)"
  using month_cases [OF assms]
  by (elim disjE) (simp_all add: DAYS_BEFORE_MONTH_def)

lemma year_part:
  "365 * (y + 4800 - a) + (y + 4800 - a) div 4 - (y + 4800 - a) div 100 + (y + 4800 - a) div 400
   = days_before_year (y - a + 1) + 1753164" for y a :: int
proof -
  have e: "y + 4800 - a = y - a + 4800" by simp
  show ?thesis unfolding e by (rule year_part_late)
qed

lemma jdn_formula_ord:
  assumes "1 \<le> m" "m \<le> 12"
  shows "d + (153 * (m + 12 * ((14 - m) div 12) - 3) + 2) div 5
         + 365 * (y + 4800 - (14 - m) div 12) + (y + 4800 - (14 - m) div 12) div 4
         - (y + 4800 - (14 - m) div 12) div 100 + (y + 4800 - (14 - m) div 12) div 400 - 32045
       = ymd2ord y m d + 1721425"
proof -
  define a where "a = (14 - m) div 12"
  have av: "a = (if m \<le> 2 then 1 else 0)"
    unfolding a_def using month_table [OF assms] by (rule conjunct1)
  have mp: "(153 * (m + 12 * a - 3) + 2) div 5
        = DAYS_BEFORE_MONTH m + (if m \<le> 2 then 306 else - 59)"
    unfolding a_def using month_table [OF assms] by (rule conjunct2)
  have yp: "365 * (y + 4800 - a) + (y + 4800 - a) div 4 - (y + 4800 - a) div 100
        + (y + 4800 - a) div 400 = days_before_year (y - a + 1) + 1753164"
    by (rule year_part)
  have lhs: "d + (153 * (m + 12 * a - 3) + 2) div 5
         + 365 * (y + 4800 - a) + (y + 4800 - a) div 4
         - (y + 4800 - a) div 100 + (y + 4800 - a) div 400 - 32045
       = d + DAYS_BEFORE_MONTH m + (if m \<le> 2 then 306 else - 59)
         + days_before_year (y - a + 1) + 1721119"
    using mp yp by linarith
  have rhs: "(if m \<le> 2 then 306 else - 59) + days_before_year (y - a + 1)
      = days_before_year y + (if m > 2 \<and> is_leap y then 1 else 0) + 306"
  proof (cases "m \<le> 2")
    case True
    then have "a = 1" using av by simp
    with True show ?thesis by simp
  next
    case False
    then have "a = 0" using av by simp
    with False show ?thesis using days_before_year_Suc [of y] by simp
  qed
  show ?thesis
    unfolding a_def [symmetric] lhs ymd2ord_def days_before_month_def
    using rhs by linarith
qed

lemma julian_day_eq:
  "julian_day ts =
     of_int (day ts + (153 * (month ts + 12 * ((14 - month ts) div 12) - 3) + 2) div 5
         + 365 * (year ts + 4800 - (14 - month ts) div 12)
         + (year ts + 4800 - (14 - month ts) div 12) div 4
         - (year ts + 4800 - (14 - month ts) div 12) div 100
         + (year ts + 4800 - (14 - month ts) div 12) div 400 - 32045)
     + (of_int (hour ts - 12) / 24 + of_int (minute ts) / 1440 + of_int (second ts) / 86400)"
  by (simp only: julian_day_def Let_def)

lemma gregorian_jdn_ord:
  assumes "1 \<le> m" "m \<le> 12"
  shows "gregorian_jdn y m d = ymd2ord y m d + 1721425"
proof -
  have a: "(14 - m) div 12 = (if m \<le> 2 then 1 else 0)"
    using month_table [OF assms] by (rule conjunct1)
  have "gregorian_jdn y m d =
      d + (153 * (m + 12 * ((14 - m) div 12) - 3) + 2) div 5
         + 365 * (y + 4800 - (14 - m) div 12) + (y + 4800 - (14 - m) div 12) div 4
         - (y + 4800 - (14 - m) div 12) div 100 + (y + 4800 - (14 - m) div 12) div 400 - 32045"
    unfolding a gregorian_jdn_def Let_def by (cases "m \<le> 2") simp_all
  then show ?thesis using jdn_formula_ord [OF assms, of d y] by simp
qed

text \<open>
  Claim C8. For every valid Gregorian calendar timestamp, julian_day is the Gregorian Julian
  Day Number of its date (the floor-division formula with January and February counted
  into the preceding year, which is the day count: the proleptic ordinal plus 1721425) plus
  the fraction (hour - 12)/24 + minute/1440 + second/86400; at 12:00:00 the fraction is 0
  and the result is the integer JDN.
\<close>

theorem julian_day_gregorian:
  assumes "valid_datetime ts"
  shows "julian_day ts =
           of_int (gregorian_jdn (year ts) (month ts) (day ts))
           + (of_int (hour ts - 12) / 24 + of_int (minute ts) / 1440 + of_int (second ts) / 86400)
         \<and> gregorian_jdn (year ts) (month ts) (day ts) = toordinal ts + 1721425
         \<and> (hour ts = 12 \<and> minute ts = 0 \<and> second ts = 0 \<longrightarrow>
              julian_day ts = of_int (gregorian_jdn (year ts) (month ts) (day ts)))"
proof -
  from assms have m: "1 \<le> month ts" "month ts \<le> 12"
    by (simp_all add: valid_datetime_def)
  have g: "gregorian_jdn (year ts) (month ts) (day ts) = toordinal ts + 1721425"
    unfolding toordinal_def by (rule gregorian_jdn_ord [OF m])
  have j: "julian_day ts =
           of_int (gregorian_jdn (year ts) (month ts) (day ts))
           + (of_int (hour ts - 12) / 24 + of_int (minute ts) / 1440 + of_int (second ts) / 86400)"
    unfolding julian_day_eq g toordinal_def
    using jdn_formula_ord [OF m, of "day ts" "year ts"] by (simp only:)
  have n: "julian_day ts = of_int (gregorian_jdn (year ts) (month ts) (day ts))"
    if "hour ts = 12" "minute ts = 0" "second ts = 0"
    unfolding j using that by simp
  from j g n show ?thesis by blast
qed

theorem julian_day_gregorian_witness:
  "valid_datetime \<lparr>year = 2000, month = 1, day = 1, hour = 12, minute = 0, second = 0,
                   microsecond = 0\<rparr>
   \<and> julian_day \<lparr>year = 2000, month = 1, day = 1, hour = 12, minute = 0, second = 0,
                   microsecond = 0\<rparr> = 2451545
   \<and> toordinal \<lparr>year = 2000, month = 1, day = 1, hour = 12, minute = 0, second = 0,
                   microsecond = 0\<rparr> = 730120"
proof -
  have v: "valid_datetime \<lparr>year = 2000, month = 1, day = 1, hour = 12, minute = 0, second = 0,
                   microsecond = 0\<rparr>"
    by (simp add: valid_datetime_def days_in_month_def DAYS_IN_MONTH_def)
  show ?thesis
    using v julian_day_gregorian [OF v]
    by (simp add: gregorian_jdn_def Let_def)
qed

section \<open>The datetime library: ordinals, addition and order\<close>


lemma month_day_all:
  "\<forall>n \<in> {0..364}. \<forall>lp. case month_day lp n of (m, d) \<Rightarrow>
      1 \<le> m \<and> m \<le> 12 \<and> 1 \<le> d
      \<and> d \<le> (if m = 2 \<and> lp then 29 else DAYS_IN_MONTH m)
      \<and> DAYS_BEFORE_MONTH m + (if m > 2 \<and> lp then 1 else 0) + d = n + 1"
  by code_simp

lemma month_day_correct:
  assumes "0 \<le> n" "n < 365" "month_day lp n = (m, d)"
  shows "1 \<le> m \<and> m \<le> 12 \<and> 1 \<le> d
      \<and> d \<le> (if m = 2 \<and> lp then 29 else DAYS_IN_MONTH m)
      \<and> DAYS_BEFORE_MONTH m + (if m > 2 \<and> lp then 1 else 0) + d = n + 1"
proof -
  from assms have "n \<in> {0..364}" by simp
  then have "case month_day lp n of (m, d) \<Rightarrow>
      1 \<le> m \<and> m \<le> 12 \<and> 1 \<le> d
      \<and> d \<le> (if m = 2 \<and> lp then 29 else DAYS_IN_MONTH m)
      \<and> DAYS_BEFORE_MONTH m + (if m > 2 \<and> lp then 1 else 0) + d = n + 1"
    by (rule month_day_all [rule_format])
  with assms(3) show ?thesis by simp
qed

lemma year_decomposition:
  fixes a b c e :: int
  assumes "0 \<le> b" "b \<le> 3" "0 \<le> c" "c \<le> 24" "0 \<le> e" "e \<le> 3"
  shows "days_before_year (400 * a + 100 * b + 4 * c + e + 1)
           = 146097 * a + 36524 * b + 1461 * c + 365 * e"
proof -
  define Y where "Y = 400 * a + 100 * b + 4 * c + e"
  have d4: "Y div 4 = 100 * a + 25 * b + c"
    by (rule int_div_pos_eq [where r = e]) (use assms in \<open>simp_all add: Y_def\<close>)
  have d100: "Y div 100 = 4 * a + b"
    by (rule int_div_pos_eq [where r = "4 * c + e"]) (use assms in \<open>simp_all add: Y_def\<close>)
  have d400: "Y div 400 = a"
    by (rule int_div_pos_eq [where r = "100 * b + 4 * c + e"])
      (use assms in \<open>simp_all add: Y_def\<close>)
  have "days_before_year (Y + 1) = Y * 365 + Y div 4 - Y div 100 + Y div 400"
    by (simp add: days_before_year_def Let_def)
  also have "\<dots> = 146097 * a + 36524 * b + 1461 * c + 365 * e"
    unfolding d4 d100 d400 by (simp add: Y_def)
  finally show ?thesis by (simp only: Y_def)
qed

lemma year_leap:
  fixes a b c e :: int
  assumes "0 \<le> b" "b \<le> 3" "0 \<le> c" "c \<le> 24" "0 \<le> e" "e \<le> 3"
  shows "is_leap (400 * a + 100 * b + 4 * c + e + 1) = (e = 3 \<and> (c \<noteq> 24 \<or> b = 3))"
proof -
  define y where "y = 400 * a + 100 * b + 4 * c + e + 1"
  have cur: "days_before_year y = 146097 * a + 36524 * b + 1461 * c + 365 * e"
    unfolding y_def by (rule year_decomposition [OF assms])
  have step: "days_before_year (y + 1) = days_before_year y + 365 + (if is_leap y then 1 else 0)"
    by (rule days_before_year_Suc)
  have nxt: "days_before_year (y + 1) =
      146097 * a + 36524 * b + 1461 * c + 365 * e + 365
        + (if e = 3 \<and> (c \<noteq> 24 \<or> b = 3) then 1 else 0)"
  proof -
    consider (e) "e \<le> 2" | (c) "e = 3" "c \<le> 23" | (b) "e = 3" "c = 24" "b \<le> 2"
      | (a) "e = 3" "c = 24" "b = 3"
      using assms by linarith
    then show ?thesis
    proof cases
      case e
      have "y + 1 = 400 * a + 100 * b + 4 * c + (e + 1) + 1" by (simp add: y_def)
      then have "days_before_year (y + 1) = 146097 * a + 36524 * b + 1461 * c + 365 * (e + 1)"
        using year_decomposition [of b c "e + 1" a] assms e by simp
      with e show ?thesis by simp
    next
      case c
      have "y + 1 = 400 * a + 100 * b + 4 * (c + 1) + 0 + 1" using c by (simp add: y_def)
      then have "days_before_year (y + 1) = 146097 * a + 36524 * b + 1461 * (c + 1) + 365 * 0"
        using year_decomposition [of b "c + 1" 0 a] assms c by simp
      with c show ?thesis by simp
    next
      case b
      have "y + 1 = 400 * a + 100 * (b + 1) + 4 * 0 + 0 + 1" using b by (simp add: y_def)
      then have "days_before_year (y + 1) = 146097 * a + 36524 * (b + 1) + 1461 * 0 + 365 * 0"
        using year_decomposition [of "b + 1" 0 0 a] assms b by simp
      with b show ?thesis by simp
    next
      case a
      have "y + 1 = 400 * (a + 1) + 100 * 0 + 4 * 0 + 0 + 1" using a by (simp add: y_def)
      then have "days_before_year (y + 1) = 146097 * (a + 1) + 36524 * 0 + 1461 * 0 + 365 * 0"
        using year_decomposition [of 0 0 0 "a + 1"] by simp
      with a show ?thesis by simp
    qed
  qed
  from cur step nxt have "(if is_leap y then 1 else 0) =
      (if e = 3 \<and> (c \<noteq> 24 \<or> b = 3) then 1 else (0::int))" by linarith
  then show ?thesis unfolding y_def by (simp split: if_splits)
qed


lemma divmod_split:
  fixes x k :: int
  assumes "0 \<le> x" "0 < k"
  shows "x = k * (x div k) + x mod k \<and> 0 \<le> x div k \<and> 0 \<le> x mod k \<and> x mod k < k"
  using assms by (simp add: pos_imp_zdiv_nonneg_iff)

lemma ord2ymd_correct:
  assumes "1 \<le> n"
  shows "case ord2ymd n of (y, m, d) \<Rightarrow>
           ymd2ord y m d = n \<and> 1 \<le> y \<and> 1 \<le> m \<and> m \<le> 12 \<and> 1 \<le> d
           \<and> d \<le> days_in_month y m"
proof -
  define n400 where "n400 = (n - 1) div 146097"
  define r400 where "r400 = (n - 1) mod 146097"
  define n100 where "n100 = r400 div 36524"
  define r100 where "r100 = r400 mod 36524"
  define n4 where "n4 = r100 div 1461"
  define r4 where "r4 = r100 mod 1461"
  define n1 where "n1 = r4 div 365"
  define r1 where "r1 = r4 mod 365"
  define yr where "yr = n400 * 400 + 1 + n100 * 100 + n4 * 4 + n1"
  define lp where "lp = (n1 = 3 \<and> (n4 \<noteq> 24 \<or> n100 = 3))"
  have unf: "ord2ymd n =
      (if n1 = 4 \<or> n100 = 4 then (yr - 1, 12, 31)
       else case month_day lp r1 of (mo, d) \<Rightarrow> (yr, mo, d))"
    unfolding ord2ymd_def Let_def n400_def r400_def n100_def r100_def n4_def r4_def n1_def
      r1_def yr_def lp_def by (rule refl)
  have s400: "n - 1 = 146097 * n400 + r400 \<and> 0 \<le> n400 \<and> 0 \<le> r400 \<and> r400 < 146097"
    unfolding n400_def r400_def by (rule divmod_split) (use assms in simp_all)
  then have s100: "r400 = 36524 * n100 + r100 \<and> 0 \<le> n100 \<and> 0 \<le> r100 \<and> r100 < 36524"
    unfolding n100_def r100_def by (intro divmod_split) simp_all
  then have s4: "r100 = 1461 * n4 + r4 \<and> 0 \<le> n4 \<and> 0 \<le> r4 \<and> r4 < 1461"
    unfolding n4_def r4_def by (intro divmod_split) simp_all
  then have s1: "r4 = 365 * n1 + r1 \<and> 0 \<le> n1 \<and> 0 \<le> r1 \<and> r1 < 365"
    unfolding n1_def r1_def by (intro divmod_split) simp_all
  have b100: "n100 \<le> 4" using s400 s100 by linarith
  have b4: "n4 \<le> 24" using s100 s4 by linarith
  have b1: "n1 \<le> 4" using s4 s1 by linarith
  show ?thesis
  proof (cases "n100 = 4")
    case True
    then have z: "r100 = 0" using s400 s100 by linarith
    then have z4: "n4 = 0" "r4 = 0" using s4 by linarith+
    then have z1: "n1 = 0" "r1 = 0" using s1 by linarith+
    have yv: "yr - 1 = 400 * n400 + 100 * 3 + 4 * 24 + 3 + 1"
      using True z4 z1 by (simp add: yr_def)
    have dby: "days_before_year (yr - 1) = 146097 * n400 + 36524 * 3 + 1461 * 24 + 365 * 3"
      unfolding yv by (rule year_decomposition) simp_all
    have lpy: "is_leap (yr - 1)"
      unfolding yv using year_leap [of 3 24 3 n400] by simp
    have "ymd2ord (yr - 1) 12 31 = n"
      using dby lpy s400 s100 True z
      by (simp add: ymd2ord_def days_before_month_def DAYS_BEFORE_MONTH_def)
    moreover have "1 \<le> yr - 1" using yv s400 by linarith
    moreover have "31 \<le> days_in_month (yr - 1) 12"
      by (simp add: days_in_month_def DAYS_IN_MONTH_def)
    ultimately show ?thesis using True by (simp add: unf)
  next
    case n100: False
    then have b100': "n100 \<le> 3" using b100 by linarith
    show ?thesis
    proof (cases "n1 = 4")
      case True
      then have z1: "r1 = 0" using s4 s1 by linarith
      have c23: "n4 \<le> 23" using True s100 s4 s1 by linarith
      have yv: "yr - 1 = 400 * n400 + 100 * n100 + 4 * n4 + 3 + 1"
        using True by (simp add: yr_def)
      have dby: "days_before_year (yr - 1) =
          146097 * n400 + 36524 * n100 + 1461 * n4 + 365 * 3"
        unfolding yv by (rule year_decomposition) (use s100 s4 b100' b4 in simp_all)
      have lpy: "is_leap (yr - 1)"
        unfolding yv using year_leap [of n100 n4 3 n400] s100 s4 b100' c23 by simp
      have "ymd2ord (yr - 1) 12 31 = n"
        using dby lpy s400 s100 s4 s1 True z1
        by (simp add: ymd2ord_def days_before_month_def DAYS_BEFORE_MONTH_def)
      moreover have "1 \<le> yr - 1" using yv s400 s100 s4 by linarith
      moreover have "31 \<le> days_in_month (yr - 1) 12"
        by (simp add: days_in_month_def DAYS_IN_MONTH_def)
      ultimately show ?thesis using True by (simp add: unf)
    next
      case n1: False
      then have b1': "n1 \<le> 3" using b1 by linarith
      obtain mo d where md: "month_day lp r1 = (mo, d)" by (cases "month_day lp r1")
      have mdc: "1 \<le> mo \<and> mo \<le> 12 \<and> 1 \<le> d
          \<and> d \<le> (if mo = 2 \<and> lp then 29 else DAYS_IN_MONTH mo)
          \<and> DAYS_BEFORE_MONTH mo + (if mo > 2 \<and> lp then 1 else 0) + d = r1 + 1"
        by (rule month_day_correct [OF _ _ md]) (use s1 in simp_all)
      have yv: "yr = 400 * n400 + 100 * n100 + 4 * n4 + n1 + 1"
        by (simp add: yr_def)
      have dby: "days_before_year yr = 146097 * n400 + 36524 * n100 + 1461 * n4 + 365 * n1"
        unfolding yv by (rule year_decomposition) (use s100 s4 s1 b100' b4 b1' in simp_all)
      have lpy: "is_leap yr = lp"
        unfolding yv lp_def by (rule year_leap) (use s100 s4 s1 b100' b4 b1' in simp_all)
      have "ymd2ord yr mo d = n"
        using dby mdc s400 s100 s4 s1
        by (simp add: ymd2ord_def days_before_month_def lpy)
      moreover have "1 \<le> yr" using yv s400 s100 s4 s1 by linarith
      moreover have "d \<le> days_in_month yr mo"
        using mdc by (simp add: days_in_month_def lpy)
      ultimately show ?thesis using n100 n1 mdc by (simp add: unf md)
    qed
  qed
qed


lemma days_before_year_mono: "y \<le> y' \<Longrightarrow> days_before_year y \<le> days_before_year y'"
proof (induction y' rule: int_ge_induct)
  case base
  show ?case by simp
next
  case (step i)
  have "days_before_year i \<le> days_before_year (i + 1)"
    unfolding days_before_year_Suc by simp
  with step show ?case by linarith
qed

lemma days_before_month_Suc:
  assumes "1 \<le> m" "m \<le> 11"
  shows "days_before_month y (m + 1) = days_before_month y m + days_in_month y m"
proof -
  from assms have "m = 1 \<or> m = 2 \<or> m = 3 \<or> m = 4 \<or> m = 5 \<or> m = 6 \<or> m = 7 \<or> m = 8
      \<or> m = 9 \<or> m = 10 \<or> m = 11" by arith
  then show ?thesis
    by (elim disjE)
      (simp_all add: days_before_month_def days_in_month_def DAYS_BEFORE_MONTH_def
        DAYS_IN_MONTH_def)
qed

lemma days_in_month_pos: "0 < days_in_month y m"
  by (simp add: days_in_month_def DAYS_IN_MONTH_def)

lemma days_before_month_mono:
  assumes "1 \<le> m" "m \<le> m'" "m' \<le> 12"
  shows "days_before_month y m \<le> days_before_month y m'"
proof -
  have "m' \<le> 12 \<longrightarrow> days_before_month y m \<le> days_before_month y m'"
    using assms(2)
  proof (induction m' rule: int_ge_induct)
    case base
    show ?case by simp
  next
    case (step i)
    show ?case
    proof
      assume "i + 1 \<le> 12"
      then have i: "1 \<le> i" "i \<le> 11" using step.hyps assms(1) by linarith+
      have "days_before_month y (i + 1) = days_before_month y i + days_in_month y i"
        by (rule days_before_month_Suc [OF i])
      with step.IH i days_in_month_pos [of y i] show "days_before_month y m \<le> days_before_month y (i + 1)"
        by linarith
    qed
  qed
  with assms(3) show ?thesis by blast
qed

lemma days_before_month_nonneg: "1 \<le> m \<Longrightarrow> m \<le> 12 \<Longrightarrow> 0 \<le> days_before_month y m"
  using days_before_month_mono [of 1 m y]
  by (simp add: days_before_month_def DAYS_BEFORE_MONTH_def)

lemma year_length:
  assumes "1 \<le> m" "m \<le> 12" "d \<le> days_in_month y m"
  shows "days_before_month y m + d \<le> 365 + (if is_leap y then 1 else 0)"
proof (cases "m = 12")
  case True
  with assms(3) show ?thesis
    by (simp add: days_before_month_def days_in_month_def DAYS_BEFORE_MONTH_def
        DAYS_IN_MONTH_def)
next
  case False
  with assms have m: "1 \<le> m" "m \<le> 11" by linarith+
  have "days_before_month y m + days_in_month y m = days_before_month y (m + 1)"
    using days_before_month_Suc [OF m] by simp
  moreover have "days_before_month y (m + 1) \<le> days_before_month y 12"
    by (rule days_before_month_mono) (use m in simp_all)
  moreover have "days_before_month y 12 \<le> 334 + (if is_leap y then 1 else 0)"
    by (simp add: days_before_month_def DAYS_BEFORE_MONTH_def)
  ultimately show ?thesis using assms(3) by linarith
qed

lemma ymd2ord_less:
  assumes a: "1 \<le> m" "m \<le> 12" "1 \<le> d" "d \<le> days_in_month y m"
    and b: "1 \<le> m'" "m' \<le> 12" "1 \<le> d'" "d' \<le> days_in_month y' m'"
    and less: "y < y' \<or> (y = y' \<and> (m < m' \<or> (m = m' \<and> d < d')))"
  shows "ymd2ord y m d < ymd2ord y' m' d'"
proof -
  consider (y) "y < y'" | (m) "y = y'" "m < m'" | (d) "y = y'" "m = m'" "d < d'"
    using less by blast
  then show ?thesis
  proof cases
    case y
    have "ymd2ord y m d \<le> days_before_year y + 365 + (if is_leap y then 1 else 0)"
      using year_length [OF a(1,2,4)] by (simp add: ymd2ord_def)
    also have "\<dots> = days_before_year (y + 1)" by (simp add: days_before_year_Suc)
    also have "\<dots> \<le> days_before_year y'"
      by (rule days_before_year_mono) (use y in simp)
    also have "\<dots> < ymd2ord y' m' d'"
      using days_before_month_nonneg [OF b(1,2), of y'] b(3) by (simp add: ymd2ord_def)
    finally show ?thesis .
  next
    case m
    then have m11: "m \<le> 11" using b(2) by linarith
    have "days_before_month y m + days_in_month y m = days_before_month y (m + 1)"
      using days_before_month_Suc [OF a(1) m11] by simp
    moreover have "days_before_month y (m + 1) \<le> days_before_month y m'"
      by (rule days_before_month_mono) (use a(1) m b(2) in simp_all)
    ultimately show ?thesis using m a(4) b(3) by (simp add: ymd2ord_def)
  next
    case d
    then show ?thesis by (simp add: ymd2ord_def)
  qed
qed


lemma ord2ymd_fields:
  assumes "1 \<le> n" "ord2ymd n = (y, m, d)"
  shows "ymd2ord y m d = n" "1 \<le> y" "1 \<le> m" "m \<le> 12" "1 \<le> d" "d \<le> days_in_month y m"
  using ord2ymd_correct [OF assms(1)] assms(2) by simp_all

lemma ord2ymd_year_max:
  assumes "1 \<le> n" "n \<le> MAXORDINAL" "ord2ymd n = (y, m, d)"
  shows "y \<le> 9999"
proof (rule ccontr)
  assume "\<not> y \<le> 9999"
  then have "10000 \<le> y" by simp
  then have "days_before_year 10000 \<le> days_before_year y" by (rule days_before_year_mono)
  moreover have "days_before_year 10000 = 3652059" by (simp add: days_before_year_def)
  moreover have "ymd2ord y m d = n" "1 \<le> m" "m \<le> 12" "1 \<le> d"
    using ord2ymd_fields [OF assms(1,3)] by simp_all
  moreover have "0 \<le> days_before_month y m"
    by (rule days_before_month_nonneg) (use \<open>1 \<le> m\<close> \<open>m \<le> 12\<close> in simp_all)
  ultimately show False using assms(2) by (simp add: ymd2ord_def MAXORDINAL_def)
qed

lemma toordinal_pos:
  assumes "valid_datetime ts"
  shows "1 \<le> toordinal ts"
proof -
  from assms have v: "1 \<le> year ts" "1 \<le> month ts" "month ts \<le> 12" "1 \<le> day ts"
    by (simp_all add: valid_datetime_def)
  have "days_before_year 1 \<le> days_before_year (year ts)"
    by (rule days_before_year_mono) (rule v(1))
  moreover have "days_before_year 1 = 0" by (simp add: days_before_year_def)
  moreover have "0 \<le> days_before_month (year ts) (month ts)"
    by (rule days_before_month_nonneg) (use v in simp_all)
  ultimately show ?thesis using v(4) by (simp add: toordinal_def ymd2ord_def)
qed


lemma dt_trichotomy:
  "dt_less a b \<or> dt_less b a
   \<or> (year a = year b \<and> month a = month b \<and> day a = day b \<and> hour a = hour b
      \<and> minute a = minute b \<and> second a = second b \<and> microsecond a = microsecond b)"
  unfolding dt_less_def by linarith

lemma dt_less_instant:
  assumes a: "valid_datetime a" and b: "valid_datetime b" and l: "dt_less a b"
  shows "instant a < instant b"
proof -
  from a have va: "1 \<le> month a" "month a \<le> 12" "1 \<le> day a"
    "day a \<le> days_in_month (year a) (month a)"
    "0 \<le> hour a" "hour a < 24" "0 \<le> minute a" "minute a < 60" "0 \<le> second a"
    "second a < 60" "0 \<le> microsecond a" "microsecond a < 1000000"
    by (simp_all add: valid_datetime_def)
  from b have vb: "1 \<le> month b" "month b \<le> 12" "1 \<le> day b"
    "day b \<le> days_in_month (year b) (month b)"
    "0 \<le> hour b" "hour b < 24" "0 \<le> minute b" "minute b < 60" "0 \<le> second b"
    "second b < 60" "0 \<le> microsecond b" "microsecond b < 1000000"
    by (simp_all add: valid_datetime_def)
  consider (date) "year a < year b \<or> (year a = year b \<and>
        (month a < month b \<or> (month a = month b \<and> day a < day b)))"
    | (time) "year a = year b" "month a = month b" "day a = day b"
        "hour a < hour b \<or> (hour a = hour b \<and>
          (minute a < minute b \<or> (minute a = minute b \<and>
          (second a < second b \<or> (second a = second b \<and>
           microsecond a < microsecond b)))))"
    using l unfolding dt_less_def by argo
  then show ?thesis
  proof cases
    case date
    have "toordinal a < toordinal b"
      unfolding toordinal_def
      by (rule ymd2ord_less [OF va(1-4) vb(1-4) date])
    then show ?thesis using va vb by (simp add: instant_def)
  next
    case time
    then have o: "toordinal a = toordinal b" by (simp add: toordinal_def)
    define ta where "ta = hour a * 3600 + minute a * 60 + second a"
    define tb where "tb = hour b * 3600 + minute b * 60 + second b"
    from time(4) consider (h) "hour a < hour b"
      | (m) "hour a = hour b" "minute a < minute b"
      | (s) "hour a = hour b" "minute a = minute b" "second a < second b"
      | (u) "hour a = hour b" "minute a = minute b" "second a = second b"
          "microsecond a < microsecond b"
      by argo
    then have "ta < tb \<or> (ta = tb \<and> microsecond a < microsecond b)"
    proof cases
      case h
      then have "ta < tb" using va(7-10) vb(7-10) unfolding ta_def tb_def by linarith
      then show ?thesis by simp
    next
      case m
      then have "ta < tb" using va(9,10) vb(9,10) unfolding ta_def tb_def by linarith
      then show ?thesis by simp
    next
      case s
      then have "ta < tb" unfolding ta_def tb_def by linarith
      then show ?thesis by simp
    next
      case u
      then show ?thesis unfolding ta_def tb_def by simp
    qed
    then consider (l) "ta < tb" | (e) "ta = tb" "microsecond a < microsecond b" by blast
    then show ?thesis
    proof cases
      case l
      then have "hour a * 3600 + minute a * 60 + second a
          < hour b * 3600 + minute b * 60 + second b"
        by (simp only: ta_def tb_def)
      then show ?thesis
        using va(11,12) vb(11,12) unfolding instant_def o by (simp add: distrib_right)
    next
      case e
      then have "hour a * 3600 + minute a * 60 + second a
          = hour b * 3600 + minute b * 60 + second b"
        by (simp only: ta_def tb_def)
      then show ?thesis
        using e(2) unfolding instant_def o by (simp add: distrib_right)
    qed
  qed
qed

lemma instant_less_dt:
  assumes a: "valid_datetime a" and b: "valid_datetime b" and l: "instant a < instant b"
  shows "dt_less a b"
proof (rule ccontr)
  assume n: "\<not> dt_less a b"
  from dt_trichotomy [of a b] n consider (gt) "dt_less b a"
    | (eq) "year a = year b" "month a = month b" "day a = day b" "hour a = hour b"
        "minute a = minute b" "second a = second b" "microsecond a = microsecond b"
    by blast
  then show False
  proof cases
    case gt
    then have "instant b < instant a" by (rule dt_less_instant [OF b a])
    with l show False by simp
  next
    case eq
    then have "instant a = instant b" by (simp add: instant_def toordinal_def)
    with l show False by simp
  qed
qed


lemma time_split:
  fixes s :: int
  assumes "0 \<le> s" "s < 86400"
  shows "0 \<le> s div 3600" "s div 3600 < 24" "0 \<le> (s mod 3600) div 60" "(s mod 3600) div 60 < 60"
    "0 \<le> s mod 60" "s mod 60 < 60"
    "s div 3600 * 3600 + (s mod 3600) div 60 * 60 + s mod 60 = s"
proof -
  define h where "h = s div 3600"
  define r where "r = s mod 3600"
  define m where "m = r div 60"
  define q where "q = r mod 60"
  have a: "s = 3600 * h + r \<and> 0 \<le> h \<and> 0 \<le> r \<and> r < 3600"
    unfolding h_def r_def by (rule divmod_split) (use assms in simp_all)
  then have b: "r = 60 * m + q \<and> 0 \<le> m \<and> 0 \<le> q \<and> q < 60"
    unfolding m_def q_def by (intro divmod_split) simp_all
  have q: "s mod 60 = q"
    unfolding q_def r_def using mod_mod_cancel [of 60 3600 s] by simp
  show "0 \<le> s div 3600" using a by (simp add: h_def)
  show "s div 3600 < 24" using a assms unfolding h_def [symmetric] by linarith
  show "0 \<le> (s mod 3600) div 60" using b by (simp add: m_def r_def)
  show "(s mod 3600) div 60 < 60" using a b unfolding m_def [symmetric] r_def [symmetric] by linarith
  show "0 \<le> s mod 60" by simp
  show "s mod 60 < 60" by simp
  show "s div 3600 * 3600 + (s mod 3600) div 60 * 60 + s mod 60 = s"
    unfolding q h_def [symmetric] r_def [symmetric] m_def [symmetric] using a b by linarith
qed

lemma plus_minutes_Inr:
  assumes v: "valid_datetime ts" and r: "plus_minutes ts k = Inr t"
  shows "valid_datetime t" "instant t = instant ts + k * 60000000"
proof -
  define secs where "secs = hour ts * 3600 + minute ts * 60 + second ts + k * 60"
  define days where "days = toordinal ts + secs div 86400"
  define s where "s = secs mod 86400"
  obtain y m d where o: "ord2ymd days = (y, m, d)" by (cases "ord2ymd days")
  have unf: "plus_minutes ts k =
     (if \<bar>k div 1440\<bar> > 999999999 then Inl OverflowError
      else if 0 < days \<and> days \<le> MAXORDINAL
           then Inr \<lparr>year = y, month = m, day = d,
                     hour = s div 3600, minute = (s mod 3600) div 60, second = s mod 60,
                     microsecond = microsecond ts\<rparr>
           else Inl OverflowError)"
    unfolding plus_minutes_def Let_def secs_def [symmetric] days_def [symmetric] s_def [symmetric] o
    by simp
  from r have rng: "0 < days" "days \<le> MAXORDINAL"
    and t: "t = \<lparr>year = y, month = m, day = d,
                     hour = s div 3600, minute = (s mod 3600) div 60, second = s mod 60,
                     microsecond = microsecond ts\<rparr>"
    unfolding unf by (simp_all split: if_splits)
  have d1: "1 \<le> days" using rng by simp
  note f = ord2ymd_fields [OF d1 o]
  have ymax: "y \<le> 9999" by (rule ord2ymd_year_max [OF d1 rng(2) o])
  have sb: "0 \<le> s" "s < 86400" by (simp_all add: s_def)
  note ts = time_split [OF sb]
  from v have us: "0 \<le> microsecond ts" "microsecond ts < 1000000"
    by (simp_all add: valid_datetime_def)
  show "valid_datetime t"
    unfolding valid_datetime_def t using f ymax ts(1-6) us by simp
  have ord: "toordinal t = days" unfolding toordinal_def t using f(1) by simp
  have tod: "hour t * 3600 + minute t * 60 + second t = s" unfolding t using ts(7) by simp
  have "days * 86400 + s = toordinal ts * 86400 + secs"
    unfolding days_def s_def using mult_div_mod_eq [of 86400 secs] by (simp add: distrib_right)
  then have "toordinal t * 86400 + (hour t * 3600 + minute t * 60 + second t)
      = toordinal ts * 86400 + (hour ts * 3600 + minute ts * 60 + second ts) + k * 60"
    unfolding ord tod secs_def by simp
  moreover have "microsecond t = microsecond ts" unfolding t by simp
  ultimately show "instant t = instant ts + k * 60000000"
    unfolding instant_def by (simp add: distrib_right add.assoc)
qed

lemma plus_minutes_defined:
  assumes v: "valid_datetime ts" and k: "0 \<le> k" "k \<le> k'"
    and r: "plus_minutes ts k' = Inr t'"
  shows "\<exists>t. plus_minutes ts k = Inr t"
proof -
  define secs where "secs = hour ts * 3600 + minute ts * 60 + second ts + k * 60"
  define secs' where "secs' = hour ts * 3600 + minute ts * 60 + second ts + k' * 60"
  from r have c': "\<not> \<bar>k' div 1440\<bar> > 999999999"
    "0 < toordinal ts + secs' div 86400 \<and> toordinal ts + secs' div 86400 \<le> MAXORDINAL"
    unfolding plus_minutes_def Let_def secs'_def by (simp_all split: if_splits)
  from v have tb: "0 \<le> hour ts" "0 \<le> minute ts" "0 \<le> second ts"
    by (simp_all add: valid_datetime_def)
  have s0: "0 \<le> secs" unfolding secs_def using tb k(1) by simp
  have ss: "secs \<le> secs'" unfolding secs_def secs'_def using k(2) by simp
  have "0 \<le> k div 1440" using k(1) by (simp add: pos_imp_zdiv_nonneg_iff)
  moreover have "k div 1440 \<le> k' div 1440" using k(2) by (simp add: zdiv_mono1)
  ultimately have c1: "\<not> \<bar>k div 1440\<bar> > 999999999" using c'(1) by linarith
  have "0 \<le> secs div 86400" using s0 by (simp add: pos_imp_zdiv_nonneg_iff)
  moreover have "secs div 86400 \<le> secs' div 86400" using ss by (simp add: zdiv_mono1)
  moreover have "1 \<le> toordinal ts" by (rule toordinal_pos [OF v])
  ultimately have c2: "0 < toordinal ts + secs div 86400"
    "toordinal ts + secs div 86400 \<le> MAXORDINAL"
    using c'(2) by linarith+
  show ?thesis
    unfolding plus_minutes_def Let_def secs_def [symmetric]
    using c1 c2 by (simp split: prod.split)
qed

section \<open>The sequence of shooting plans\<close>

lemma timestamp_create: "timestamp (create_shooting_plan s ts) = ts"
  by (simp add: create_shooting_plan_def Let_def)

lemma py_range_up:
  "0 < step \<Longrightarrow>
   py_range i stop step =
     map (\<lambda>n. i + int n * step) [0..<nat ((stop - i + step - 1) div step)]"
proof (induction i stop step rule: py_range.induct)
  case (1 i stop step)
  show ?case
  proof (cases "i < stop")
    case True
    define c where "c = (stop - i - 1) div step"
    have c0: "0 \<le> c" unfolding c_def using True 1(3) by (simp add: pos_imp_zdiv_nonneg_iff)
    have e: "stop - i + step - 1 = stop - i - 1 + 1 * step" by simp
    have "(stop - i + step - 1) div step = 1 + c"
      unfolding e c_def using 1(3) by (subst div_mult_self1) simp_all
    then have n: "nat ((stop - i + step - 1) div step) = Suc (nat c)" using c0 by simp
    have ih: "py_range (i + step) stop step =
        map (\<lambda>n. i + step + int n * step) [0..<nat c]"
      using 1(1) [OF _ 1(3)] True 1(3) by (simp add: c_def)
    have "py_range i stop step = i # py_range (i + step) stop step"
      using True 1(3) by (subst py_range.simps) simp
    also have "\<dots> = map (\<lambda>n. i + int n * step) [0..<Suc (nat c)]"
      unfolding ih by (simp add: upt_rec [of 0 "Suc (nat c)"] map_Suc_upt [symmetric] algebra_simps
          del: upt_Suc)
    finally show ?thesis unfolding n .
  next
    case False
    then have "stop - i + step - 1 < step" by simp
    then have "(stop - i + step - 1) div step \<le> 0"
      using 1(3) by (metis div_pos_pos_trivial div_neg_pos_less0 less_le_not_le linorder_le_less_linear order_refl)
    then have "nat ((stop - i + step - 1) div step) = 0" by simp
    moreover have "py_range i stop step = []"
      using False 1(3) by (subst py_range.simps) simp
    ultimately show ?thesis by simp
  qed
qed

lemma plan_loop_all_defined:
  assumes "\<forall>k \<in> set ks. \<exists>t. plus_minutes start k = Inr t"
  shows "plan_loop s start ks acc =
     Inr (acc @ map (\<lambda>k. create_shooting_plan s (projr (plus_minutes start k))) ks)"
  using assms
proof (induction ks arbitrary: acc)
  case Nil
  show ?case by simp
next
  case (Cons k ks)
  from Cons.prems obtain t where t: "plus_minutes start k = Inr t" by auto
  have "plan_loop s start (k # ks) acc = plan_loop s start ks (acc @ [create_shooting_plan s t])"
    by (simp add: t)
  also have "\<dots> = Inr ((acc @ [create_shooting_plan s t])
      @ map (\<lambda>k. create_shooting_plan s (projr (plus_minutes start k))) ks)"
    by (rule Cons.IH) (use Cons.prems in simp)
  finally show ?case by (simp add: t)
qed

lemma plan_loop_overflow:
  assumes "plus_minutes start k = Inr t" "plus_minutes start k' = Inl e"
  shows "plan_loop s start [k, k'] [] = Inl e"
  using assms by simp

lemma ceiling_div:
  fixes d i :: int
  assumes "0 < i"
  shows "\<lceil>real_of_int d / real_of_int i\<rceil> = (d + i - 1) div i"
proof (rule ceiling_unique)
  define q where "q = (d + i - 1) div i"
  define r where "r = (d + i - 1) mod i"
  have e: "d + i - 1 = i * q + r" unfolding q_def r_def by simp
  have r: "0 \<le> r" "r < i" unfolding r_def using assms by simp_all
  have lo: "i * (q - 1) < d" using e r by (simp add: right_diff_distrib)
  have hi: "d \<le> i * q" using e r by simp
  have ri: "0 < real_of_int i" using assms by simp
  from lo have "real_of_int (i * (q - 1)) < real_of_int d" by (simp only: of_int_less_iff)
  then have "real_of_int (q - 1) * real_of_int i < real_of_int d" by (simp add: mult.commute)
  then show "real_of_int ((d + i - 1) div i) - 1 < real_of_int d / real_of_int i"
    unfolding q_def [symmetric] using ri by (simp add: pos_less_divide_eq)
  from hi have "real_of_int d \<le> real_of_int (i * q)" by (simp only: of_int_le_iff)
  then have "real_of_int d \<le> real_of_int q * real_of_int i" by (simp add: mult.commute)
  then show "real_of_int d / real_of_int i \<le> real_of_int ((d + i - 1) div i)"
    unfolding q_def [symmetric] using ri by (simp add: pos_divide_le_eq)
qed

lemma plus_minutes_result:
  "plus_minutes ts k = Inl OverflowError \<or> (\<exists>t. plus_minutes ts k = Inr t)"
  unfolding plus_minutes_def Let_def by (simp split: prod.split)

lemma generate_sequence_eq:
  assumes v: "valid_datetime start" and d: "0 < d" and i: "0 < i"
    and last: "plus_minutes start ((d - 1) div i * i) \<noteq> Inl OverflowError"
  defines "c \<equiv> nat ((d + i - 1) div i)"
  defines "ts \<equiv> (\<lambda>n. projr (plus_minutes start (int n * i)))"
  shows "generate_sequence s start d i = Inr (map (\<lambda>n. create_shooting_plan s (ts n)) [0..<c])"
    and "int c = (d - 1) div i + 1"
    and "\<And>n. n < c \<Longrightarrow> plus_minutes start (int n * i) = Inr (ts n)"
    and "\<And>n. n < c \<Longrightarrow> int n * i < d"
    and "d \<le> int c * i"
proof -
  have e: "d + i - 1 = d - 1 + 1 * i" by simp
  have q0: "0 \<le> (d - 1) div i" using d i by (simp add: pos_imp_zdiv_nonneg_iff)
  have "(d + i - 1) div i = 1 + (d - 1) div i"
    unfolding e using i by (subst div_mult_self1) simp_all
  then show c: "int c = (d - 1) div i + 1" unfolding c_def using q0 by simp
  define q where "q = (d - 1) div i"
  define r where "r = (d - 1) mod i"
  have m: "q * i + r = d - 1" unfolding q_def r_def by (simp add: mult.commute)
  have r: "0 \<le> r" "r < i" unfolding r_def using i by simp_all
  have lastle: "(d - 1) div i * i \<le> d - 1" unfolding q_def [symmetric] using m r by linarith
  have "d \<le> (q + 1) * i" unfolding distrib_right using m r by linarith
  then show "d \<le> int c * i" unfolding c q_def .
  from last plus_minutes_result [of start "(d - 1) div i * i"]
  obtain tl where tl: "plus_minutes start ((d - 1) div i * i) = Inr tl" by blast
  have off: "int n * i \<le> (d - 1) div i * i" if "n < c" for n
  proof -
    from that c have "int n \<le> (d - 1) div i" by simp
    then show ?thesis using i by (simp add: mult_right_mono)
  qed
  show lt: "int n * i < d" if "n < c" for n using off [OF that] lastle by simp
  have def: "\<exists>t. plus_minutes start (int n * i) = Inr t" if "n < c" for n
    by (rule plus_minutes_defined [OF v _ off [OF that] tl]) (use i in simp)
  show tsn: "plus_minutes start (int n * i) = Inr (ts n)" if "n < c" for n
    using def [OF that] unfolding ts_def by auto
  have rng: "py_range 0 d i = map (\<lambda>n. int n * i) [0..<c]"
    unfolding c_def using py_range_up [OF i, of 0 d] by simp
  have "generate_sequence s start d i = plan_loop s start (map (\<lambda>n. int n * i) [0..<c]) []"
    unfolding generate_sequence_def rng using i by simp
  also have "\<dots> = Inr ([] @ map (\<lambda>k. create_shooting_plan s (projr (plus_minutes start k)))
      (map (\<lambda>n. int n * i) [0..<c]))"
    by (rule plan_loop_all_defined) (use def in auto)
  finally show "generate_sequence s start d i =
      Inr (map (\<lambda>n. create_shooting_plan s (ts n)) [0..<c])"
    by (simp add: ts_def comp_def)
qed

lemma plan_loop_fail:
  assumes "\<exists>k \<in> set ks. plus_minutes start k = Inl OverflowError"
  shows "plan_loop s start ks acc = Inl OverflowError"
  using assms
proof (induction ks arbitrary: acc)
  case Nil
  then show ?case by simp
next
  case (Cons k ks)
  from plus_minutes_result [of start k] show ?case
  proof
    assume "plus_minutes start k = Inl OverflowError"
    then show ?thesis by simp
  next
    assume "\<exists>t. plus_minutes start k = Inr t"
    then obtain t where t: "plus_minutes start k = Inr t" ..
    with Cons.prems have "\<exists>k \<in> set ks. plus_minutes start k = Inl OverflowError" by auto
    then have "plan_loop s start ks (acc @ [create_shooting_plan s t]) = Inl OverflowError"
      by (rule Cons.IH)
    then show ?thesis by (simp add: t)
  qed
qed

lemma last_sample_in_range:
  assumes d: "0 < d" and i: "0 < i"
  shows "(d - 1) div i * i \<in> set (py_range 0 d i)"
proof -
  define c where "c = nat ((d + i - 1) div i)"
  have e: "d + i - 1 = d - 1 + 1 * i" by simp
  have q0: "0 \<le> (d - 1) div i" using d i by (simp add: pos_imp_zdiv_nonneg_iff)
  have "(d + i - 1) div i = 1 + (d - 1) div i"
    unfolding e using i by (subst div_mult_self1) simp_all
  then have c: "int c = (d - 1) div i + 1" unfolding c_def using q0 by simp
  have rng: "py_range 0 d i = map (\<lambda>n. int n * i) [0..<c]"
    unfolding c_def using py_range_up [OF i, of 0 d] by simp
  have n: "nat ((d - 1) div i) < c" using c q0 by linarith
  have "nat ((d - 1) div i) \<in> set [0..<c]" using n by simp
  then have "(\<lambda>n. int n * i) (nat ((d - 1) div i)) \<in> (\<lambda>n. int n * i) ` set [0..<c]"
    by (rule imageI)
  then show ?thesis unfolding rng set_map using q0 by simp
qed

lemma generate_sequence_fail:
  assumes d: "0 < d" and i: "0 < i"
    and last: "plus_minutes start ((d - 1) div i * i) = Inl OverflowError"
  shows "generate_sequence s start d i = Inl OverflowError"
proof -
  have "\<exists>k \<in> set (py_range 0 d i). plus_minutes start k = Inl OverflowError"
    using last_sample_in_range [OF d i] last by blast
  then have "plan_loop s start (py_range 0 d i) [] = Inl OverflowError"
    by (rule plan_loop_fail)
  then show ?thesis unfolding generate_sequence_def using i by simp
qed

text \<open>
  Claim C1, as stated, fails: not every pair of positive integers yields a list. With the
  clock at 2026-11-04 12:00 and generate_sequence(10000000000, 5000000000) the second
  sample, five thousand million minutes later, lies beyond year 9999, and
  \<open>start_time + timedelta(minutes=i)\<close> raises OverflowError.
\<close>

theorem generate_sequence_overflow:
  "generate_sequence \<lparr>lat = 40.7128, lon = -74.0060\<rparr>
     \<lparr>year = 2026, month = 11, day = 4, hour = 12, minute = 0, second = 0, microsecond = 0\<rparr>
     10000000000 5000000000 = Inl OverflowError"
proof -
  define start where "start =
    \<lparr>year = 2026, month = 11, day = 4, hour = 12, minute = 0, second = 0, microsecond = 0\<rparr>"
  have r2: "py_range 10000000000 10000000000 5000000000 = []"
    by (subst py_range.simps) simp
  have r1: "py_range 5000000000 10000000000 5000000000 = [5000000000]"
    by (subst py_range.simps) (simp add: r2)
  have r0: "py_range 0 10000000000 5000000000 = [0, 5000000000]"
    by (subst py_range.simps) (simp add: r1)
  have ord: "toordinal start = 739924"
    by (simp add: start_def toordinal_def ymd2ord_def days_before_year_def
        days_before_month_def DAYS_BEFORE_MONTH_def is_leap_def)
  have a: "\<exists>t. plus_minutes start 0 = Inr t"
    unfolding plus_minutes_def Let_def ord
    by (simp add: start_def MAXORDINAL_def split: prod.split)
  have b: "plus_minutes start 5000000000 = Inl OverflowError"
    unfolding plus_minutes_def Let_def ord
    by (simp add: start_def MAXORDINAL_def)
  from a obtain t where t: "plus_minutes start 0 = Inr t" ..
  show ?thesis
    unfolding start_def [symmetric] generate_sequence_def r0
    using plan_loop_overflow [OF t b] by simp
qed

text \<open>
  Within the representable range generate_sequence returns the plans of the sampled
  instants, in order.
\<close>

lemma generate_sequence_defined:
  assumes v: "valid_datetime start" and d: "0 < d" and i: "0 < i"
    and last: "plus_minutes start ((d - 1) div i * i) \<noteq> Inl OverflowError"
  shows "\<exists>seq. generate_sequence s start d i = Inr seq
     \<and> length seq = nat \<lceil>real_of_int d / real_of_int i\<rceil>
     \<and> d \<le> int (length seq) * i
     \<and> (\<forall>n < length seq.
           seq ! n = create_shooting_plan s (timestamp (seq ! n))
         \<and> plus_minutes start (int n * i) = Inr (timestamp (seq ! n))
         \<and> int n * i < d
         \<and> instant (timestamp (seq ! n)) = instant start + int n * i * 60000000)
     \<and> sorted_wrt dt_less (map timestamp seq)
     \<and> distinct (map timestamp seq)
     \<and> (d = 120 \<and> i = 15 \<longrightarrow> length seq = 8)"
proof -
  define c where "c = nat ((d + i - 1) div i)"
  define ts where "ts = (\<lambda>n. projr (plus_minutes start (int n * i)))"
  define seq where "seq = map (\<lambda>n. create_shooting_plan s (ts n)) [0..<c]"
  note g1 = generate_sequence_eq(1) [OF v d i last, of s, folded c_def]
  note g = generate_sequence_eq(2-5) [OF v d i last, folded c_def]
  have p: "plus_minutes start (int n * i) = Inr (ts n)" if "n < c" for n
    unfolding ts_def by (rule g(2) [OF that])
  have len: "length seq = c" by (simp add: seq_def)
  have nth: "seq ! n = create_shooting_plan s (ts n)" if "n < c" for n
    using that by (simp add: seq_def)
  have tsn: "timestamp (seq ! n) = ts n" if "n < c" for n
    by (simp add: nth [OF that] timestamp_create)
  have inst: "instant (ts n) = instant start + int n * i * 60000000" if "n < c" for n
    by (rule plus_minutes_Inr(2) [OF v p [OF that]])
  have val: "valid_datetime (ts n)" if "n < c" for n
    by (rule plus_minutes_Inr(1) [OF v p [OF that]])
  have less: "dt_less (ts a) (ts b)" if "a < b" "b < c" for a b
  proof -
    from that have ac: "a < c" by simp
    have "int a * i < int b * i" using that(1) i by simp
    then have "instant (ts a) < instant (ts b)"
      unfolding inst [OF ac] inst [OF that(2)] by simp
    then show ?thesis by (rule instant_less_dt [OF val [OF ac] val [OF that(2)]])
  qed
  have irrefl: "\<not> dt_less x x" for x by (simp add: dt_less_def)
  have mts: "map timestamp seq = map ts [0..<c]"
    by (simp add: seq_def timestamp_create comp_def)
  have sorted: "sorted_wrt dt_less (map timestamp seq)"
    unfolding mts sorted_wrt_iff_nth_less using less by simp
  have dist: "distinct (map timestamp seq)"
    unfolding mts distinct_conv_nth
  proof (intro allI impI)
    fix a b
    assume ab: "a < length (map ts [0..<c])" "b < length (map ts [0..<c])" "a \<noteq> b"
    then have ac: "a < c" and bc: "b < c" by simp_all
    from ab(3) consider "a < b" | "b < a" by linarith
    then have "ts a \<noteq> ts b"
    proof cases
      case 1
      from less [OF 1 bc] irrefl show ?thesis by auto
    next
      case 2
      from less [OF 2 ac] irrefl show ?thesis by auto
    qed
    then show "map ts [0..<c] ! a \<noteq> map ts [0..<c] ! b" using ac bc by simp
  qed
  have ceil: "c = nat \<lceil>real_of_int d / real_of_int i\<rceil>"
    unfolding c_def ceiling_div [OF i] ..
  have ex: "c = 8" if "d = 120 \<and> i = 15"
    unfolding c_def using that by simp
  have all: "\<forall>n < length seq.
           seq ! n = create_shooting_plan s (timestamp (seq ! n))
         \<and> plus_minutes start (int n * i) = Inr (timestamp (seq ! n))
         \<and> int n * i < d
         \<and> instant (timestamp (seq ! n)) = instant start + int n * i * 60000000"
    unfolding len using nth tsn p g(3) inst by simp
  have gs: "generate_sequence s start d i = Inr seq" unfolding seq_def ts_def by (rule g1)
  have dl: "d \<le> int (length seq) * i" unfolding len by (rule g(4))
  from gs ceil dl all sorted dist ex show ?thesis unfolding len [symmetric] by blast
qed

text \<open>
  Claim C1, amended. For all positive integers duration_minutes and interval_minutes:
  if the reference instant start is a valid datetime and the last sample, start plus
  ((duration - 1) div interval) * interval minutes, is still a representable datetime, then
  generate_sequence returns a list of plans: one plan create_shooting_plan(start + n *
  interval minutes) for each n = 0, 1, ... with n * interval < duration, in this order, so
  that its length is ceil(duration / interval), no further multiple of the interval lies
  below the duration, the timestamps are strictly ascending and pairwise distinct, and for
  duration 120 and interval 15 there are exactly 8 plans (offsets 0, 15, ..., 105). If
  the last sample is not representable, the call raises OverflowError and returns no list.
\<close>

theorem generate_sequence_sampling:
  assumes d: "0 < d" and i: "0 < i"
  shows "(valid_datetime start
          \<and> plus_minutes start ((d - 1) div i * i) \<noteq> Inl OverflowError \<longrightarrow>
          (\<exists>seq. generate_sequence s start d i = Inr seq
          \<and> length seq = nat \<lceil>real_of_int d / real_of_int i\<rceil>
          \<and> d \<le> int (length seq) * i
          \<and> (\<forall>n < length seq.
                seq ! n = create_shooting_plan s (timestamp (seq ! n))
              \<and> plus_minutes start (int n * i) = Inr (timestamp (seq ! n))
              \<and> int n * i < d
              \<and> instant (timestamp (seq ! n)) = instant start + int n * i * 60000000)
          \<and> sorted_wrt dt_less (map timestamp seq)
          \<and> distinct (map timestamp seq)
          \<and> (d = 120 \<and> i = 15 \<longrightarrow> length seq = 8)))
     \<and> (plus_minutes start ((d - 1) div i * i) = Inl OverflowError \<longrightarrow>
          generate_sequence s start d i = Inl OverflowError)"
proof (intro conjI impI)
  assume "valid_datetime start \<and> plus_minutes start ((d - 1) div i * i) \<noteq> Inl OverflowError"
  then have v: "valid_datetime start"
    and last: "plus_minutes start ((d - 1) div i * i) \<noteq> Inl OverflowError" by simp_all
  show "\<exists>seq. generate_sequence s start d i = Inr seq
     \<and> length seq = nat \<lceil>real_of_int d / real_of_int i\<rceil>
     \<and> d \<le> int (length seq) * i
     \<and> (\<forall>n < length seq.
           seq ! n = create_shooting_plan s (timestamp (seq ! n))
         \<and> plus_minutes start (int n * i) = Inr (timestamp (seq ! n))
         \<and> int n * i < d
         \<and> instant (timestamp (seq ! n)) = instant start + int n * i * 60000000)
     \<and> sorted_wrt dt_less (map timestamp seq)
     \<and> distinct (map timestamp seq)
     \<and> (d = 120 \<and> i = 15 \<longrightarrow> length seq = 8)"
    by (rule generate_sequence_defined [OF v d i last])
next
  assume "plus_minutes start ((d - 1) div i * i) = Inl OverflowError"
  then show "generate_sequence s start d i = Inl OverflowError"
    by (rule generate_sequence_fail [OF d i])
qed

theorem generate_sequence_sampling_witness:
  "valid_datetime
     \<lparr>year = 2026, month = 11, day = 4, hour = 22, minute = 30, second = 0, microsecond = 0\<rparr>
   \<and> (0::int) < 120 \<and> (0::int) < 15
   \<and> plus_minutes
        \<lparr>year = 2026, month = 11, day = 4, hour = 22, minute = 30, second = 0, microsecond = 0\<rparr>
        ((120 - 1) div 15 * 15) \<noteq> Inl OverflowError
   \<and> (\<exists>seq. generate_sequence \<lparr>lat = 40.7128, lon = -74.0060\<rparr>
          \<lparr>year = 2026, month = 11, day = 4, hour = 22, minute = 30, second = 0, microsecond = 0\<rparr>
          120 15 = Inr seq
        \<and> length seq = 8
        \<and> timestamp (seq ! 0) =
          \<lparr>year = 2026, month = 11, day = 4, hour = 22, minute = 30, second = 0, microsecond = 0\<rparr>
        \<and> timestamp (seq ! 7) =
          \<lparr>year = 2026, month = 11, day = 5, hour = 0, minute = 15, second = 0, microsecond = 0\<rparr>
        \<and> sorted_wrt dt_less (map timestamp seq)
        \<and> distinct (map timestamp seq))
   \<and> (0::int) < 10000000000 \<and> (0::int) < 3000000000
   \<and> plus_minutes
        \<lparr>year = 2026, month = 11, day = 4, hour = 22, minute = 30, second = 0, microsecond = 0\<rparr>
        ((10000000000 - 1) div 3000000000 * 3000000000) = Inl OverflowError
   \<and> generate_sequence \<lparr>lat = 40.7128, lon = -74.0060\<rparr>
        \<lparr>year = 2026, month = 11, day = 4, hour = 22, minute = 30, second = 0, microsecond = 0\<rparr>
        10000000000 3000000000 = Inl OverflowError"
proof -
  define start where "start =
    \<lparr>year = 2026, month = 11, day = 4, hour = 22, minute = 30, second = 0, microsecond = 0\<rparr>"
  define session where "session = \<lparr>lat = 40.7128, lon = -74.0060\<rparr>"
  have v: "valid_datetime start"
    by (simp add: start_def valid_datetime_def days_in_month_def DAYS_IN_MONTH_def)
  have ord: "toordinal start = 739924"
    by (simp add: start_def toordinal_def ymd2ord_def days_before_year_def
        days_before_month_def DAYS_BEFORE_MONTH_def is_leap_def)
  have o0: "ord2ymd 739924 = (2026, 11, 4)"
    by (simp add: ord2ymd_def month_day_def DAYS_BEFORE_MONTH_def DAYS_IN_MONTH_def Let_def)
  have o1: "ord2ymd 739925 = (2026, 11, 5)"
    by (simp add: ord2ymd_def month_day_def DAYS_BEFORE_MONTH_def DAYS_IN_MONTH_def Let_def)
  have p0: "plus_minutes start 0 = Inr start"
    unfolding plus_minutes_def Let_def ord
    by (simp add: start_def MAXORDINAL_def o0)
  have p7: "plus_minutes start 105 =
      Inr \<lparr>year = 2026, month = 11, day = 5, hour = 0, minute = 15, second = 0, microsecond = 0\<rparr>"
    unfolding plus_minutes_def Let_def ord
    by (simp add: start_def MAXORDINAL_def o1)
  have last: "plus_minutes start ((120 - 1) div 15 * 15) \<noteq> Inl OverflowError"
    using p7 by simp
  have far: "plus_minutes start ((10000000000 - 1) div 3000000000 * 3000000000)
      = Inl OverflowError"
    unfolding plus_minutes_def Let_def ord
    by (simp add: start_def MAXORDINAL_def)
  note near = generate_sequence_sampling [where d = 120 and i = 15 and start = start
      and s = session, THEN conjunct1, THEN mp, OF _ _ conjI [OF v last]]
  note beyond = generate_sequence_sampling [where d = 10000000000 and i = 3000000000
      and start = start and s = session, THEN conjunct2, THEN mp, OF _ _ far]
  from near
  obtain seq where g: "generate_sequence session start 120 15 = Inr seq"
    and len: "length seq = 8"
    and nth: "\<forall>n < length seq. plus_minutes start (int n * 15) = Inr (timestamp (seq ! n))"
    and so: "sorted_wrt dt_less (map timestamp seq)" and di: "distinct (map timestamp seq)"
    by auto
  have "plus_minutes start 0 = Inr (timestamp (seq ! 0))"
    using nth [rule_format, of 0] len by simp
  moreover have "plus_minutes start 105 = Inr (timestamp (seq ! 7))"
    using nth [rule_format, of 7] len by simp
  ultimately have t0: "timestamp (seq ! 0) = start"
    and t7: "timestamp (seq ! 7) =
      \<lparr>year = 2026, month = 11, day = 5, hour = 0, minute = 15, second = 0, microsecond = 0\<rparr>"
    using p0 p7 by simp_all
  have ov: "generate_sequence session start 10000000000 3000000000 = Inl OverflowError"
    using beyond by simp
  have first: "\<exists>seq. generate_sequence session start 120 15 = Inr seq
        \<and> length seq = 8
        \<and> timestamp (seq ! 0) = start
        \<and> timestamp (seq ! 7) =
          \<lparr>year = 2026, month = 11, day = 5, hour = 0, minute = 15, second = 0, microsecond = 0\<rparr>
        \<and> sorted_wrt dt_less (map timestamp seq)
        \<and> distinct (map timestamp seq)"
    using g len t0 t7 so di by blast
  show ?thesis
    using v last first far ov unfolding start_def session_def by simp
qed

end
